theory Spec2Isabelle
  imports Main "HOL-Library.AList"
begin

section \<open>The PocketFlow orchestrator of glim (src/pocketflow.js)\<close>

text \<open>
  The orchestrator is a small class hierarchy: \<open>BaseNode\<close>, \<open>Node\<close> (bounded retry),
  \<open>BatchNode\<close>, \<open>ParallelBatchNode\<close> and \<open>Flow\<close>. A concrete step is a user class that
  extends one of them and overrides \<open>prep\<close>, \<open>exec\<close>, \<open>post\<close> and \<open>execFallback\<close>.

  The embedding keeps the framework code as HOL functions and takes the user methods as
  parameters. A user method reads \<open>this\<close> (the node object, passed as a record), reads and
  writes a world \<open>'w\<close> (the shared context and everything else outside the framework) and
  either returns a value or throws one. It does not assign the fields the framework owns.
  Every call the framework makes to a user method, every timer and every console warning
  is appended to a trace. A source method whose name starts with an underscore has a
  \<open>u\<close> in its place: \<open>Node_uexec\<close> is \<open>Node._exec\<close>.
\<close>

subsection \<open>Values and outcomes\<close>

datatype jsval =
    JUndefined
  | JNull
  | JBool bool
  | JNum int
  | JStr string
  | JArr "jsval list"
  | JObj "(string \<times> jsval) list"
  | JError string

text \<open>An awaited call either throws (\<open>Inl\<close>) or returns (\<open>Inr\<close>).\<close>

type_synonym outcome = "jsval + jsval"

text \<open>JavaScript truthiness, as used by \<open>!items\<close>, \<open>action || "default"\<close> and \<open>pr ? .. : ..\<close>.\<close>

fun truthy :: "jsval \<Rightarrow> bool" where
  "truthy JUndefined = False"
| "truthy JNull = False"
| "truthy (JBool b) = b"
| "truthy (JNum i) = (i \<noteq> 0)"
| "truthy (JStr s) = (s \<noteq> [])"
| "truthy (JArr xs) = True"
| "truthy (JObj kvs) = True"
| "truthy (JError m) = True"

fun isArray :: "jsval \<Rightarrow> bool" where
  "isArray (JArr xs) = True"
| "isArray v = False"

fun elements :: "jsval \<Rightarrow> jsval list" where
  "elements (JArr xs) = xs"
| "elements v = []"

subsection \<open>Node objects, classes and the machine state\<close>

type_synonym cname = string
type_synonym addr = nat

text \<open>
  The own properties of a node object. \<open>cls\<close> is \<open>this.constructor\<close>. \<open>maxRetries\<close>,
  \<open>wait\<close> and \<open>currentRetry\<close> are set by the \<open>Node\<close> constructor and \<open>start\<close> by the
  \<open>Flow\<close> constructor; an object of another class carries them unused. \<open>_successors\<close> is
  a \<open>Map\<close> in insertion order whose values are references to node objects. The number of
  attempts, the counter and the wait in seconds are integers.
\<close>

record node =
  cls :: cname
  params :: "(string \<times> jsval) list"
  successors :: "(jsval \<times> addr) list"
  maxRetries :: int
  wait :: int
  currentRetry :: int
  start :: "addr option"

datatype kind = KBaseNode | KNode | KBatchNode | KParallelBatchNode | KFlow

text \<open>A class: the framework class it extends and its four methods.\<close>

record 'w methods =
  base :: kind
  prep :: "node \<Rightarrow> 'w \<Rightarrow> outcome \<times> 'w"
  exec :: "node \<Rightarrow> jsval \<Rightarrow> 'w \<Rightarrow> outcome \<times> 'w"
  post :: "node \<Rightarrow> jsval \<Rightarrow> jsval \<Rightarrow> 'w \<Rightarrow> outcome \<times> 'w"
  execFallback :: "node \<Rightarrow> jsval \<Rightarrow> jsval \<Rightarrow> 'w \<Rightarrow> outcome \<times> 'w"

type_synonym 'w program = "cname \<Rightarrow> 'w methods"

datatype event =
    EvPrep cname
  | EvExec cname int jsval
  | EvFallback cname jsval jsval
  | EvPost cname jsval jsval
  | EvSleep int
  | EvWarn string

text \<open>
  \<open>heap\<close> holds the node objects, an address being an index; \<open>sched\<close> is the order in
  which pending promises of a parallel batch settle, chosen by the environment.
\<close>

record 'w state =
  world :: 'w
  trace :: "event list"
  heap :: "node list"
  sched :: "nat list"

definition log :: "event \<Rightarrow> 'w state \<Rightarrow> 'w state" where
  "log ev s = s\<lparr>trace := trace s @ [ev]\<rparr>"

definition call_prep :: "'w methods \<Rightarrow> node \<Rightarrow> 'w state \<Rightarrow> outcome \<times> 'w state" where
  "call_prep M n s =
     (case prep M n (world s) of
        (r, w) \<Rightarrow> (r, log (EvPrep (cls n)) (s\<lparr>world := w\<rparr>)))"

definition call_exec :: "'w methods \<Rightarrow> node \<Rightarrow> jsval \<Rightarrow> 'w state \<Rightarrow> outcome \<times> 'w state" where
  "call_exec M n p s =
     (case exec M n p (world s) of
        (r, w) \<Rightarrow> (r, log (EvExec (cls n) (currentRetry n) p) (s\<lparr>world := w\<rparr>)))"

definition call_post ::
  "'w methods \<Rightarrow> node \<Rightarrow> jsval \<Rightarrow> jsval \<Rightarrow> 'w state \<Rightarrow> outcome \<times> 'w state" where
  "call_post M n p e s =
     (case post M n p e (world s) of
        (r, w) \<Rightarrow> (r, log (EvPost (cls n) p e) (s\<lparr>world := w\<rparr>)))"

definition call_execFallback ::
  "'w methods \<Rightarrow> node \<Rightarrow> jsval \<Rightarrow> jsval \<Rightarrow> 'w state \<Rightarrow> outcome \<times> 'w state" where
  "call_execFallback M n p e s =
     (case execFallback M n p e (world s) of
        (r, w) \<Rightarrow> (r, log (EvFallback (cls n) p e) (s\<lparr>world := w\<rparr>)))"

text \<open>The methods a class inherits when it overrides nothing.\<close>

definition BaseNode_prep :: "node \<Rightarrow> 'w \<Rightarrow> outcome \<times> 'w" where
  "BaseNode_prep n w = (Inr JUndefined, w)"

definition BaseNode_exec :: "node \<Rightarrow> jsval \<Rightarrow> 'w \<Rightarrow> outcome \<times> 'w" where
  "BaseNode_exec n p w = (Inr JUndefined, w)"

definition BaseNode_post :: "node \<Rightarrow> jsval \<Rightarrow> jsval \<Rightarrow> 'w \<Rightarrow> outcome \<times> 'w" where
  "BaseNode_post n p e w = (Inr JUndefined, w)"

definition Node_execFallback :: "node \<Rightarrow> jsval \<Rightarrow> jsval \<Rightarrow> 'w \<Rightarrow> outcome \<times> 'w" where
  "Node_execFallback n p e w = (Inl e, w)"

definition Flow_exec :: "node \<Rightarrow> jsval \<Rightarrow> 'w \<Rightarrow> outcome \<times> 'w" where
  "Flow_exec n p w = (Inl (JError ''Flow can't exec.''), w)"

definition inherited :: "kind \<Rightarrow> 'w methods" where
  "inherited k =
     \<lparr>base = k, prep = BaseNode_prep,
      exec = (if k = KFlow then Flow_exec else BaseNode_exec),
      post = BaseNode_post, execFallback = Node_execFallback\<rparr>"

subsection \<open>Node._exec: the retry loop\<close>

text \<open>
  The three ways out of \<open>Node._exec\<close>: \<open>return await this.exec(prepRes)\<close>,
  \<open>return await this.execFallback(prepRes, e)\<close> and the \<open>throw\<close> after the loop.
\<close>

datatype exit_site = ReturnExec | ReturnFallback | ThrowAfterLoop

definition sleep :: "int \<Rightarrow> 'w state \<Rightarrow> 'w state" where
  "sleep ms s = log (EvSleep ms) s"

function retry_loop ::
  "'w methods \<Rightarrow> node \<Rightarrow> jsval \<Rightarrow> 'w state \<Rightarrow> exit_site \<times> outcome \<times> node \<times> 'w state" where
  "retry_loop M n p s =
     (if currentRetry n < maxRetries n then
        (case call_exec M n p s of
           (Inr v, s1) \<Rightarrow> (ReturnExec, Inr v, n, s1)
         | (Inl e, s1) \<Rightarrow>
             if currentRetry n = maxRetries n - 1 then
               (case call_execFallback M n p e s1 of
                  (r, s2) \<Rightarrow> (ReturnFallback, r, n, s2))
             else
               retry_loop M (n\<lparr>currentRetry := currentRetry n + 1\<rparr>) p
                 (if wait n > 0 then sleep (wait n * 1000) s1 else s1))
      else (ThrowAfterLoop, Inl (JError ''Unexpected end of retry loop''), n, s))"
  by pat_completeness auto
termination
  by (relation "measure (\<lambda>(M, n, p, s). nat (maxRetries n - currentRetry n))") auto

definition Node_uexec_site ::
  "'w methods \<Rightarrow> node \<Rightarrow> jsval \<Rightarrow> 'w state \<Rightarrow> exit_site \<times> outcome \<times> node \<times> 'w state" where
  "Node_uexec_site M n p s = retry_loop M (n\<lparr>currentRetry := 0\<rparr>) p s"

definition Node_uexec ::
  "'w methods \<Rightarrow> node \<Rightarrow> jsval \<Rightarrow> 'w state \<Rightarrow> outcome \<times> node \<times> 'w state" where
  "Node_uexec M n p s = snd (Node_uexec_site M n p s)"

text \<open>
  Vocabulary for one retry cycle. \<open>pause\<close> is the wait in the \<open>catch\<close> block.
  \<open>before_attempt M n p s j\<close> is the state in which attempt \<open>j + 1\<close> starts when the
  \<open>j\<close> attempts before it have thrown, \<open>attempt_outcome M n p s j\<close> is what \<open>exec\<close> does
  on that attempt, and \<open>failed_attempts n p j\<close> are the events of \<open>j\<close> failed attempts.
\<close>

definition pause :: "node \<Rightarrow> 'w state \<Rightarrow> 'w state" where
  "pause n s = (if wait n > 0 then sleep (wait n * 1000) s else s)"

fun before_attempt :: "'w methods \<Rightarrow> node \<Rightarrow> jsval \<Rightarrow> 'w state \<Rightarrow> nat \<Rightarrow> 'w state" where
  "before_attempt M n p s 0 = s"
| "before_attempt M n p s (Suc j) =
     pause n (snd (call_exec M (n\<lparr>currentRetry := int j\<rparr>) p (before_attempt M n p s j)))"

definition attempt_outcome :: "'w methods \<Rightarrow> node \<Rightarrow> jsval \<Rightarrow> 'w state \<Rightarrow> nat \<Rightarrow> outcome" where
  "attempt_outcome M n p s j =
     fst (call_exec M (n\<lparr>currentRetry := int j\<rparr>) p (before_attempt M n p s j))"

definition after_attempt :: "'w methods \<Rightarrow> node \<Rightarrow> jsval \<Rightarrow> 'w state \<Rightarrow> nat \<Rightarrow> 'w state" where
  "after_attempt M n p s j =
     snd (call_exec M (n\<lparr>currentRetry := int j\<rparr>) p (before_attempt M n p s j))"

fun failed_attempts :: "node \<Rightarrow> jsval \<Rightarrow> nat \<Rightarrow> event list" where
  "failed_attempts n p 0 = []"
| "failed_attempts n p (Suc j) =
     failed_attempts n p j @ EvExec (cls n) (int j) p #
       (if wait n > 0 then [EvSleep (wait n * 1000)] else [])"

fun is_fallback :: "event \<Rightarrow> bool" where
  "is_fallback (EvFallback c p e) = True"
| "is_fallback ev = False"

fun is_exec :: "event \<Rightarrow> bool" where
  "is_exec (EvExec c i p) = True"
| "is_exec ev = False"

subsection \<open>BatchNode._exec: one retry cycle per item, in order\<close>

fun batch_loop ::
  "'w methods \<Rightarrow> node \<Rightarrow> jsval list \<Rightarrow> jsval list \<Rightarrow> 'w state \<Rightarrow> outcome \<times> node \<times> 'w state" where
  "batch_loop M n [] results s = (Inr (JArr results), n, s)"
| "batch_loop M n (item # rest) results s =
     (case Node_uexec M n item s of
        (Inl e, n1, s1) \<Rightarrow> (Inl e, n1, s1)
      | (Inr result, n1, s1) \<Rightarrow> batch_loop M n1 rest (results @ [result]) s1)"

definition BatchNode_uexec ::
  "'w methods \<Rightarrow> node \<Rightarrow> jsval \<Rightarrow> 'w state \<Rightarrow> outcome \<times> node \<times> 'w state" where
  "BatchNode_uexec M n items s =
     (if \<not> truthy items \<or> \<not> isArray items then (Inr (JArr []), n, s)
      else batch_loop M n (elements items) [] s)"

text \<open>
  The specification's wording of the same step, for comparison: for each item, in input
  order, run the full retry cycle with that item as input, and collect the outputs in an
  ordered collection matching the input order; a cycle that throws ends the batch.
\<close>

fun cycles_in_order ::
  "'w methods \<Rightarrow> node \<Rightarrow> jsval list \<Rightarrow> 'w state \<Rightarrow> (jsval + jsval list) \<times> node \<times> 'w state" where
  "cycles_in_order M n [] s = (Inr [], n, s)"
| "cycles_in_order M n (x # xs) s =
     (case Node_uexec M n x s of
        (Inl e, n1, s1) \<Rightarrow> (Inl e, n1, s1)
      | (Inr y, n1, s1) \<Rightarrow>
          (case cycles_in_order M n1 xs s1 of
             (Inl e, n2, s2) \<Rightarrow> (Inl e, n2, s2)
           | (Inr ys, n2, s2) \<Rightarrow> (Inr (y # ys), n2, s2)))"

definition as_batch_result ::
  "(jsval + jsval list) \<times> node \<times> 'w state \<Rightarrow> outcome \<times> node \<times> 'w state" where
  "as_batch_result t = (case t of (r, n, s) \<Rightarrow> (map_sum id JArr r, n, s))"

subsection \<open>ParallelBatchNode._exec: interleaved retry loops joined by Promise.all\<close>

text \<open>
  \<open>items.map\<close> calls the arrow function on every item in order; each call runs
  \<open>Node._exec\<close> on the same \<open>this\<close> up to its first \<open>await\<close>. From then on a call
  advances only when the promise it awaits settles, and it runs without interruption to
  its next \<open>await\<close>. A coroutine records where one call of \<open>Node._exec\<close> is suspended:
  on \<open>this.exec\<close>, on the timer, on \<open>this.execFallback\<close>, or finished. A user method
  acts on the world when it is called; its outcome is delivered when the schedule picks it.
\<close>

datatype coroutine =
    AwaitExec outcome
  | AwaitSleep
  | AwaitFallback outcome
  | Settled outcome

text \<open>The loop test and, when it passes, the call of \<open>this.exec\<close> in the \<open>try\<close> block.\<close>

definition attempt ::
  "'w methods \<Rightarrow> node \<Rightarrow> jsval \<Rightarrow> 'w state \<Rightarrow> coroutine \<times> 'w state" where
  "attempt M n item s =
     (if currentRetry n < maxRetries n then
        (case call_exec M n item s of (r, s1) \<Rightarrow> (AwaitExec r, s1))
      else (Settled (Inl (JError ''Unexpected end of retry loop'')), s))"

definition start_item ::
  "'w methods \<Rightarrow> node \<Rightarrow> jsval \<Rightarrow> 'w state \<Rightarrow> coroutine \<times> node \<times> 'w state" where
  "start_item M n item s =
     (case attempt M (n\<lparr>currentRetry := 0\<rparr>) item s of
        (c, s1) \<Rightarrow> (c, n\<lparr>currentRetry := 0\<rparr>, s1))"

fun start_all ::
  "'w methods \<Rightarrow> node \<Rightarrow> jsval list \<Rightarrow> 'w state \<Rightarrow> (jsval \<times> coroutine) list \<times> node \<times> 'w state" where
  "start_all M n [] s = ([], n, s)"
| "start_all M n (item # rest) s =
     (case start_item M n item s of
        (c, n1, s1) \<Rightarrow>
          (case start_all M n1 rest s1 of
             (cs, n2, s2) \<Rightarrow> ((item, c) # cs, n2, s2)))"

text \<open>The loop increment \<open>this.currentRetry++\<close> followed by the next loop test.\<close>

definition next_attempt ::
  "'w methods \<Rightarrow> node \<Rightarrow> jsval \<Rightarrow> 'w state \<Rightarrow> coroutine \<times> node \<times> 'w state" where
  "next_attempt M n item s =
     (case attempt M (n\<lparr>currentRetry := currentRetry n + 1\<rparr>) item s of
        (c, s1) \<Rightarrow> (c, n\<lparr>currentRetry := currentRetry n + 1\<rparr>, s1))"

fun resume ::
  "'w methods \<Rightarrow> node \<Rightarrow> jsval \<Rightarrow> coroutine \<Rightarrow> 'w state \<Rightarrow> coroutine \<times> node \<times> 'w state" where
  "resume M n item (AwaitExec (Inr v)) s = (Settled (Inr v), n, s)"
| "resume M n item (AwaitExec (Inl e)) s =
     (if currentRetry n = maxRetries n - 1 then
        (case call_execFallback M n item e s of (r, s1) \<Rightarrow> (AwaitFallback r, n, s1))
      else if wait n > 0 then (AwaitSleep, n, sleep (wait n * 1000) s)
      else next_attempt M n item s)"
| "resume M n item AwaitSleep s = next_attempt M n item s"
| "resume M n item (AwaitFallback r) s = (Settled r, n, s)"
| "resume M n item (Settled r) s = (Settled r, n, s)"

fun is_pending :: "coroutine \<Rightarrow> bool" where
  "is_pending (Settled r) = False"
| "is_pending c = True"

definition pending :: "(jsval \<times> coroutine) list \<Rightarrow> nat list" where
  "pending cs = filter (\<lambda>i. is_pending (snd (cs ! i))) [0..<length cs]"

text \<open>\<open>Promise.all\<close> rejects with the first rejection it sees.\<close>

fun rejected :: "(jsval \<times> coroutine) list \<Rightarrow> jsval option" where
  "rejected [] = None"
| "rejected ((item, Settled (Inl e)) # cs) = Some e"
| "rejected ((item, c) # cs) = rejected cs"

fun settled_value :: "jsval \<times> coroutine \<Rightarrow> jsval" where
  "settled_value (item, Settled (Inr v)) = v"
| "settled_value (item, c) = JUndefined"

text \<open>The environment picks which pending promise settles next.\<close>

definition pick :: "nat list \<Rightarrow> 'w state \<Rightarrow> nat \<times> 'w state" where
  "pick ps s =
     (case sched s of
        [] \<Rightarrow> (hd ps, s)
      | c # rest \<Rightarrow> (ps ! (c mod length ps), s\<lparr>sched := rest\<rparr>))"

definition par_step ::
  "'w methods \<Rightarrow> node \<Rightarrow> (jsval \<times> coroutine) list \<Rightarrow> 'w state \<Rightarrow>
     (jsval \<times> coroutine) list \<times> node \<times> 'w state" where
  "par_step M n cs s =
     (case pick (pending cs) s of
        (i, s0) \<Rightarrow>
          (case resume M n (fst (cs ! i)) (snd (cs ! i)) s0 of
             (c, n1, s1) \<Rightarrow> (cs[i := (fst (cs ! i), c)], n1, s1)))"

fun weight :: "coroutine \<Rightarrow> nat" where
  "weight (AwaitExec r) = 3"
| "weight AwaitSleep = 2"
| "weight (AwaitFallback r) = 1"
| "weight (Settled r) = 0"

definition par_measure :: "node \<Rightarrow> (jsval \<times> coroutine) list \<Rightarrow> nat" where
  "par_measure n cs =
     2 * nat (maxRetries n - currentRetry n) + sum_list (map (\<lambda>ic. weight (snd ic)) cs)"

lemma pending_mem: "i \<in> set (pending cs) \<Longrightarrow> i < length cs \<and> is_pending (snd (cs ! i))"
  by (auto simp: pending_def)

lemma pick_mem: "ps \<noteq> [] \<Longrightarrow> pick ps s = (i, s0) \<Longrightarrow> i \<in> set ps"
  by (auto simp: pick_def split: list.splits)

lemma weight_update:
  "i < length cs \<Longrightarrow>
   sum_list (map (\<lambda>ic. weight (snd ic)) (cs[i := (x, c)])) + weight (snd (cs ! i)) =
   sum_list (map (\<lambda>ic. weight (snd ic)) cs) + weight c"
proof (induction cs arbitrary: i)
  case Nil
  then show ?case by simp
next
  case (Cons a cs)
  then show ?case by (cases i) auto
qed

lemma attempt_cases:
  "attempt M n item s = (c, s1) \<Longrightarrow>
   (c = Settled (Inl (JError ''Unexpected end of retry loop'')) \<and> \<not> currentRetry n < maxRetries n) \<or>
   ((\<exists>r. c = AwaitExec r) \<and> currentRetry n < maxRetries n)"
  by (auto simp: attempt_def split: if_splits prod.splits)

lemma resume_decreases:
  "is_pending c \<Longrightarrow> resume M n item c s = (c', n1, s1) \<Longrightarrow>
   2 * nat (maxRetries n1 - currentRetry n1) + weight c'
     < 2 * nat (maxRetries n - currentRetry n) + weight c"
  apply (cases "(M, n, item, c, s)" rule: resume.cases)
      apply (auto simp: next_attempt_def split: if_splits prod.splits dest!: attempt_cases)
  done

lemma par_step_decreases:
  assumes "pending cs \<noteq> []" and "par_step M n cs s = (cs', n1, s1)"
  shows "par_measure n1 cs' < par_measure n cs"
proof -
  obtain i s0 where pk: "pick (pending cs) s = (i, s0)"
    by (cases "pick (pending cs) s")
  obtain c where rs: "resume M n (fst (cs ! i)) (snd (cs ! i)) s0 = (c, n1, s1)"
    and cs': "cs' = cs[i := (fst (cs ! i), c)]"
    using assms(2) pk by (auto simp: par_step_def split: prod.splits)
  from pick_mem[OF assms(1) pk] pending_mem
  have i: "i < length cs" "is_pending (snd (cs ! i))"
    by auto
  from resume_decreases[OF i(2) rs] weight_update[OF i(1), of "fst (cs ! i)" c]
  show ?thesis unfolding par_measure_def cs' by linarith
qed

text \<open>
  \<open>await Promise.all(..)\<close>: the batch throws as soon as one call has thrown and returns
  the values in item order once every call has returned.
\<close>

function par_loop ::
  "'w methods \<Rightarrow> node \<Rightarrow> (jsval \<times> coroutine) list \<Rightarrow> 'w state \<Rightarrow> outcome \<times> node \<times> 'w state" where
  "par_loop M n cs s =
     (case rejected cs of
        Some e \<Rightarrow> (Inl e, n, s)
      | None \<Rightarrow>
          if pending cs = [] then (Inr (JArr (map settled_value cs)), n, s)
          else (case par_step M n cs s of (cs1, n1, s1) \<Rightarrow> par_loop M n1 cs1 s1))"
  by pat_completeness auto
termination
  by (relation "measure (\<lambda>(M, n, cs, s). par_measure n cs)")
     (auto dest: par_step_decreases [OF _ sym])

definition ParallelBatchNode_uexec ::
  "'w methods \<Rightarrow> node \<Rightarrow> jsval \<Rightarrow> 'w state \<Rightarrow> outcome \<times> node \<times> 'w state" where
  "ParallelBatchNode_uexec M n items s =
     (if \<not> truthy items \<or> \<not> isArray items then (Inr (JArr []), n, s)
      else (case start_all M n (elements items) s of
              (cs, n1, s1) \<Rightarrow> par_loop M n1 cs s1))"

subsection \<open>Successor edges, parameters and clone\<close>

text \<open>
  A \<open>Map\<close> compares keys by SameValueZero: primitives by value, objects by identity.
  Values carry no identity here, so an array, object or error used as a key matches
  nothing.
\<close>

fun primitive :: "jsval \<Rightarrow> bool" where
  "primitive (JArr xs) = False"
| "primitive (JObj kvs) = False"
| "primitive (JError m) = False"
| "primitive v = True"

fun map_get :: "(jsval \<times> addr) list \<Rightarrow> jsval \<Rightarrow> addr option" where
  "map_get [] k = None"
| "map_get ((k', a) # m) k = (if primitive k \<and> k' = k then Some a else map_get m k)"

fun map_set :: "(jsval \<times> addr) list \<Rightarrow> jsval \<Rightarrow> addr \<Rightarrow> (jsval \<times> addr) list" where
  "map_set [] k a = [(k, a)]"
| "map_set ((k', b) # m) k a =
     (if primitive k \<and> k' = k then (k', a) # m else (k', b) # map_set m k a)"

definition BaseNode_on :: "addr \<Rightarrow> jsval \<Rightarrow> addr \<Rightarrow> 'w state \<Rightarrow> 'w state" where
  "BaseNode_on a action b s =
     (let n = heap s ! a;
          s1 = (if map_get (successors n) action \<noteq> None
                then log (EvWarn ''Overwriting successor for action'') s else s)
      in s1\<lparr>heap := (heap s1)[a := n\<lparr>successors := map_set (successors n) action b\<rparr>]\<rparr>)"

definition BaseNode_next :: "addr \<Rightarrow> addr \<Rightarrow> 'w state \<Rightarrow> 'w state" where
  "BaseNode_next a b s = BaseNode_on a (JStr ''default'') b s"

definition getNextNode :: "node \<Rightarrow> jsval \<Rightarrow> 'w state \<Rightarrow> addr option \<times> 'w state" where
  "getNextNode n action s =
     (let nextAction = (if truthy action then action else JStr ''default'');
          nxt = map_get (successors n) nextAction
      in (nxt, if nxt = None \<and> successors n \<noteq> [] then log (EvWarn ''Flow ends'') s else s))"

text \<open>Object spread \<open>{...a, ...b}\<close>: the own enumerable properties of \<open>b\<close> written over \<open>a\<close>.\<close>

function string_of_nat :: "nat \<Rightarrow> string" where
  "string_of_nat i =
     (if i < 10 then [char_of (48 + i)]
      else string_of_nat (i div 10) @ [char_of (48 + i mod 10)])"
  by pat_completeness auto
termination
  by (relation "measure id") auto

fun own_props :: "jsval \<Rightarrow> (string \<times> jsval) list" where
  "own_props (JObj kvs) = kvs"
| "own_props (JArr xs) = map (\<lambda>i. (string_of_nat i, xs ! i)) [0..<length xs]"
| "own_props (JStr cs) = map (\<lambda>i. (string_of_nat i, JStr [cs ! i])) [0..<length cs]"
| "own_props v = []"

definition spread :: "(string \<times> jsval) list \<Rightarrow> (string \<times> jsval) list \<Rightarrow> (string \<times> jsval) list" where
  "spread a b = fold (\<lambda>(k, v). AList.update k v) b a"

definition setParams :: "(string \<times> jsval) list \<Rightarrow> node \<Rightarrow> node" where
  "setParams p n = n\<lparr>params := spread [] p\<rparr>"

text \<open>
  \<open>new this.constructor()\<close> runs the constructor without arguments; \<open>clone\<close> then
  copies every own property that is not a function over the fresh object.
\<close>

definition new_node :: "cname \<Rightarrow> node" where
  "new_node c =
     \<lparr>cls = c, params = [], successors = [], maxRetries = 1, wait = 0, currentRetry = 0,
      start = None\<rparr>"

definition clone :: "node \<Rightarrow> node" where
  "clone n =
     (new_node (cls n))
       \<lparr>params := spread [] (params n), successors := successors n,
        maxRetries := maxRetries n, wait := wait n, currentRetry := currentRetry n,
        start := start n\<rparr>"

definition alloc :: "node \<Rightarrow> 'w state \<Rightarrow> addr \<times> 'w state" where
  "alloc n s = (length (heap s), s\<lparr>heap := heap s @ [n]\<rparr>)"

definition clone_at :: "addr \<Rightarrow> 'w state \<Rightarrow> addr \<times> 'w state" where
  "clone_at a s = alloc (clone (heap s ! a)) s"

subsection \<open>BaseNode._run and Flow\<close>

text \<open>\<open>this._exec(p)\<close>, resolved by the class of \<open>this\<close>.\<close>

definition BaseNode_uexec ::
  "'w methods \<Rightarrow> node \<Rightarrow> jsval \<Rightarrow> 'w state \<Rightarrow> outcome \<times> node \<times> 'w state" where
  "BaseNode_uexec M n p s = (case call_exec M n p s of (r, s1) \<Rightarrow> (r, n, s1))"

definition uexec ::
  "'w methods \<Rightarrow> node \<Rightarrow> jsval \<Rightarrow> 'w state \<Rightarrow> outcome \<times> node \<times> 'w state" where
  "uexec M n p s =
     (case base M of
        KBaseNode \<Rightarrow> BaseNode_uexec M n p s
      | KNode \<Rightarrow> Node_uexec M n p s
      | KBatchNode \<Rightarrow> BatchNode_uexec M n p s
      | KParallelBatchNode \<Rightarrow> ParallelBatchNode_uexec M n p s
      | KFlow \<Rightarrow> BaseNode_uexec M n p s)"

text \<open>
  \<open>BaseNode._run\<close> on the object at address \<open>a\<close>. \<open>_exec\<close> assigns \<open>this.currentRetry\<close>,
  so the object is written back before \<open>post\<close> runs.
\<close>

definition BaseNode_urun :: "'w program \<Rightarrow> addr \<Rightarrow> 'w state \<Rightarrow> outcome \<times> 'w state" where
  "BaseNode_urun P a s =
     (let n = heap s ! a; M = P (cls n) in
      case call_prep M n s of
        (Inl e, s1) \<Rightarrow> (Inl e, s1)
      | (Inr p, s1) \<Rightarrow>
          (case uexec M n p s1 of
             (r, n1, s2) \<Rightarrow>
               (let s3 = s2\<lparr>heap := (heap s2)[a := n1]\<rparr> in
                case r of
                  Inl e \<Rightarrow> (Inl e, s3)
                | Inr e \<Rightarrow> call_post M n1 p e s3)))"

text \<open>
  A graph may loop, so the traversal takes fuel and \<open>None\<close> means that the fuel ran out.
  \<open>urun\<close> is \<open>current._run(shared)\<close> resolved by class: \<open>Flow._run\<close> for a flow,
  \<open>BaseNode._run\<close> otherwise.
\<close>

fun urun :: "nat \<Rightarrow> 'w program \<Rightarrow> addr \<Rightarrow> 'w state \<Rightarrow> (outcome \<times> 'w state) option"
and Flow_uorchestrate ::
  "nat \<Rightarrow> 'w program \<Rightarrow> addr \<Rightarrow> (string \<times> jsval) list option \<Rightarrow> 'w state \<Rightarrow>
     (outcome \<times> 'w state) option"
and orchestrate_loop ::
  "nat \<Rightarrow> 'w program \<Rightarrow> addr option \<Rightarrow> (string \<times> jsval) list \<Rightarrow> 'w state \<Rightarrow>
     (outcome \<times> 'w state) option" where
  "urun 0 P a s = None"
| "urun (Suc k) P a s =
     (let n = heap s ! a; M = P (cls n) in
      if base M = KFlow then
        (case call_prep M n s of
           (Inl e, s1) \<Rightarrow> Some (Inl e, s1)
         | (Inr pr, s1) \<Rightarrow>
             (case Flow_uorchestrate k P a
                     (Some (if truthy pr then spread (spread [] (params (heap s1 ! a))) (own_props pr)
                            else params (heap s1 ! a))) s1 of
                None \<Rightarrow> None
              | Some (Inl e, s2) \<Rightarrow> Some (Inl e, s2)
              | Some (Inr u, s2) \<Rightarrow> Some (call_post M (heap s2 ! a) pr JUndefined s2)))
      else Some (BaseNode_urun P a s))"
| "Flow_uorchestrate 0 P f prm s = None"
| "Flow_uorchestrate (Suc k) P f prm s =
     (case start (heap s ! f) of
        None \<Rightarrow> Some (Inl (JError ''Flow has no start node''), s)
      | Some a \<Rightarrow>
          (case clone_at a s of
             (cur, s1) \<Rightarrow>
               orchestrate_loop k P (Some cur)
                 (case prm of Some q \<Rightarrow> q | None \<Rightarrow> params (heap s1 ! f)) s1))"
| "orchestrate_loop k P None p s = Some (Inr JUndefined, s)"
| "orchestrate_loop 0 P (Some cur) p s = None"
| "orchestrate_loop (Suc k) P (Some cur) p s =
     (let s1 = s\<lparr>heap := (heap s)[cur := setParams p (heap s ! cur)]\<rparr> in
      case urun k P cur s1 of
        None \<Rightarrow> None
      | Some (Inl e, s2) \<Rightarrow> Some (Inl e, s2)
      | Some (Inr action, s2) \<Rightarrow>
          (case getNextNode (heap s2 ! cur) action s2 of
             (None, s3) \<Rightarrow> orchestrate_loop k P None p s3
           | (Some b, s3) \<Rightarrow>
               (case clone_at b s3 of
                  (c, s4) \<Rightarrow> orchestrate_loop k P (Some c) p s4)))"

text \<open>\<open>BaseNode.run\<close>, the public entry point (a flow is started with it).\<close>

definition BaseNode_run :: "nat \<Rightarrow> 'w program \<Rightarrow> addr \<Rightarrow> 'w state \<Rightarrow> (outcome \<times> 'w state) option" where
  "BaseNode_run k P a s =
     urun k P a
       (if successors (heap s ! a) \<noteq> []
        then log (EvWarn ''Node won't run successors. Use Flow.'') s else s)"

subsection \<open>Example steps\<close>

text \<open>
  \<open>flaky_exec f\<close> throws the first \<open>f item\<close> times it is called on an item and succeeds
  from then on; the world is the list of items it has thrown on. \<open>degrading_step\<close> overrides
  \<open>execFallback\<close> to return a value, \<open>flaky_step\<close> keeps the inherited one.
\<close>

definition flaky_exec ::
  "(jsval \<Rightarrow> nat) \<Rightarrow> node \<Rightarrow> jsval \<Rightarrow> jsval list \<Rightarrow> outcome \<times> jsval list" where
  "flaky_exec f n item w =
     (if f item \<le> count_list w item then (Inr (JObj [(''done'', item)]), w)
      else (Inl (JError ''transient''), item # w))"

definition flaky_step :: "kind \<Rightarrow> (jsval \<Rightarrow> nat) \<Rightarrow> jsval list methods" where
  "flaky_step k f = (inherited k)\<lparr>exec := flaky_exec f\<rparr>"

definition degrading_step :: "kind \<Rightarrow> (jsval \<Rightarrow> nat) \<Rightarrow> jsval list methods" where
  "degrading_step k f =
     (flaky_step k f)\<lparr>execFallback := (\<lambda>n p e w. (Inr (JStr ''degraded''), w))\<rparr>"

definition demo_node :: "int \<Rightarrow> int \<Rightarrow> node" where
  "demo_node m w = (new_node ''Step'')\<lparr>maxRetries := m, wait := w\<rparr>"

definition demo_state :: "nat list \<Rightarrow> jsval list state" where
  "demo_state sc = \<lparr>world = [], trace = [], heap = [], sched = sc\<rparr>"

text \<open>Which items of a batch are flaky.\<close>

definition only_b_flaky :: "jsval \<Rightarrow> nat" where
  "only_b_flaky x = (if x = JStr ''b'' then 1 else 0)"

definition b_always_fails :: "jsval \<Rightarrow> nat" where
  "b_always_fails x = (if x = JStr ''b'' then 5 else 0)"

definition each_fails_once :: "jsval \<Rightarrow> nat" where
  "each_fails_once x = 1"

subsection \<open>Vocabulary for the flow properties\<close>

text \<open>
  \<open>visit P x p s\<close> is one turn of the \<open>while\<close> loop of \<open>Flow._orchestrate\<close> on a step
  that is not a flow: clone the object at \<open>x\<close>, set its parameters, run its cycle.
\<close>

definition visit :: "'w program \<Rightarrow> addr \<Rightarrow> (string \<times> jsval) list \<Rightarrow> 'w state \<Rightarrow> outcome \<times> 'w state" where
  "visit P x p s =
     (case clone_at x s of
        (c, s1) \<Rightarrow> BaseNode_urun P c (s1\<lparr>heap := (heap s1)[c := setParams p (heap s1 ! c)]\<rparr>))"

text \<open>
  \<open>grows s s'\<close>: the heap is the same and the trace has only been extended.
  \<open>keeps n s n' s'\<close>: moreover \<open>this\<close> differs in the retry counter at most, which is
  what a call of \<open>_exec\<close> guarantees.
\<close>

definition grows :: "'w state \<Rightarrow> 'w state \<Rightarrow> bool" where
  "grows s s' \<longleftrightarrow> heap s' = heap s \<and> (\<exists>evs. trace s' = trace s @ evs)"

definition keeps :: "node \<Rightarrow> 'w state \<Rightarrow> node \<Rightarrow> 'w state \<Rightarrow> bool" where
  "keeps n s n' s' \<longleftrightarrow> grows s s' \<and> (\<exists>c. n' = n\<lparr>currentRetry := c\<rparr>)"

text \<open>
  \<open>frame A s s'\<close>: from \<open>s\<close> to \<open>s'\<close> the heap has only grown and, of the objects of
  \<open>s\<close>, only those in \<open>A\<close> may have changed.
\<close>

definition frame :: "addr set \<Rightarrow> 'w state \<Rightarrow> 'w state \<Rightarrow> bool" where
  "frame A s s' \<longleftrightarrow>
     length (heap s) \<le> length (heap s') \<and>
     (\<forall>b<length (heap s). b \<notin> A \<longrightarrow> heap s' ! b = heap s ! b)"

text \<open>
  A step whose \<open>exec\<close> reads \<open>this.currentRetry\<close> and throws on the first attempt, a
  program with that step and a flow, and a chain of three steps built with \<open>next\<close>.
\<close>

definition counter_exec :: "node \<Rightarrow> jsval \<Rightarrow> 'w \<Rightarrow> outcome \<times> 'w" where
  "counter_exec n p w =
     (if currentRetry n = 0 then Inl (JError ''first attempt'') else Inr (JNum (currentRetry n)), w)"

definition demo_program :: "jsval list program" where
  "demo_program c =
     (if c = ''Flow'' then inherited KFlow
      else if c = ''Counter'' then (inherited KNode)\<lparr>exec := counter_exec\<rparr>
      else inherited KNode)"

definition demo_flow_state :: "jsval list state" where
  "demo_flow_state =
     \<lparr>world = [], trace = [],
      heap = [(new_node ''Counter'')\<lparr>maxRetries := 2\<rparr>, (new_node ''Flow'')\<lparr>start := Some 0\<rparr>],
      sched = []\<rparr>"

definition chain_state :: "jsval list state" where
  "chain_state =
     BaseNode_next 1 2 (BaseNode_next 0 1
       \<lparr>world = [], trace = [],
        heap = [new_node ''A'', new_node ''B'', new_node ''C'', (new_node ''Flow'')\<lparr>start := Some 0\<rparr>],
        sched = []\<rparr>)"

subsection \<open>Vocabulary for the parallel batch\<close>

text \<open>A batch result of one item.\<close>

definition single :: "outcome \<Rightarrow> outcome" where
  "single r = map_sum id (\<lambda>v. JArr [v]) r"

text \<open>\<open>exec\<close> never throws on the items \<open>xs\<close>.\<close>

definition never_throws :: "'w methods \<Rightarrow> jsval list \<Rightarrow> bool" where
  "never_throws M xs \<longleftrightarrow> (\<forall>x\<in>set xs. \<forall>n w. \<exists>v w'. exec M n x w = (Inr v, w'))"

text \<open>\<open>exec\<close> throws on every attempt on \<open>x\<close> and so does the fallback (the inherited one does).\<close>

definition always_throws :: "'w methods \<Rightarrow> jsval \<Rightarrow> bool" where
  "always_throws M x \<longleftrightarrow>
     (\<forall>n w. \<exists>e w'. exec M n x w = (Inl e, w')) \<and>
     (\<forall>n e w. \<exists>e' w'. execFallback M n x e w = (Inl e', w'))"

fun doomed :: "coroutine \<Rightarrow> bool" where
  "doomed (AwaitExec (Inl e)) = True"
| "doomed AwaitSleep = True"
| "doomed (AwaitFallback (Inl e)) = True"
| "doomed (Settled (Inl e)) = True"
| "doomed c = False"

text \<open>What a coroutine that cannot fail any more will deliver.\<close>

fun promised :: "jsval \<times> coroutine \<Rightarrow> jsval option" where
  "promised (x, AwaitExec (Inr v)) = Some v"
| "promised (x, Settled (Inr v)) = Some v"
| "promised (x, c) = None"

section \<open>Properties of the retry loop\<close>

declare retry_loop.simps [simp del] par_loop.simps [simp del] string_of_nat.simps [simp del]
  urun.simps [simp del] Flow_uorchestrate.simps [simp del] orchestrate_loop.simps [simp del]

lemmas out_of_fuel [simp] = urun.simps(1) Flow_uorchestrate.simps(1) orchestrate_loop.simps(1,2)

lemma retry_loop_return:
  "currentRetry n < maxRetries n \<Longrightarrow> call_exec M n p s = (Inr v, s1) \<Longrightarrow>
   retry_loop M n p s = (ReturnExec, Inr v, n, s1)"
  by (subst retry_loop.simps) simp

lemma retry_loop_retry:
  "currentRetry n < maxRetries n - 1 \<Longrightarrow> call_exec M n p s = (Inl e, s1) \<Longrightarrow>
   retry_loop M n p s = retry_loop M (n\<lparr>currentRetry := currentRetry n + 1\<rparr>) p (pause n s1)"
  by (subst retry_loop.simps) (simp add: pause_def)


lemma retry_loop_skip:
  "int j < maxRetries n \<Longrightarrow> (\<forall>i<j. \<exists>e. attempt_outcome M n p s i = Inl e) \<Longrightarrow>
   retry_loop M (n\<lparr>currentRetry := 0\<rparr>) p s =
   retry_loop M (n\<lparr>currentRetry := int j\<rparr>) p (before_attempt M n p s j)"
proof (induction j)
  case 0
  then show ?case by simp
next
  case (Suc j)
  from Suc.prems obtain e where e: "attempt_outcome M n p s j = Inl e" by auto
  have ce: "call_exec M (n\<lparr>currentRetry := int j\<rparr>) p (before_attempt M n p s j) =
        (Inl e, after_attempt M n p s j)"
    using e by (simp add: attempt_outcome_def after_attempt_def prod_eq_iff)
  have "retry_loop M (n\<lparr>currentRetry := 0\<rparr>) p s =
        retry_loop M (n\<lparr>currentRetry := int j\<rparr>) p (before_attempt M n p s j)"
    using Suc by simp
  also have "\<dots> = retry_loop M (n\<lparr>currentRetry := int j + 1\<rparr>) p
                     (pause (n\<lparr>currentRetry := int j\<rparr>) (after_attempt M n p s j))"
    using retry_loop_retry[OF _ ce] Suc.prems(1) by simp
  finally show ?case by (simp add: after_attempt_def pause_def add.commute)
qed

lemma trace_call_exec:
  "trace (snd (call_exec M n p s)) = trace s @ [EvExec (cls n) (currentRetry n) p]"
  by (simp add: call_exec_def log_def split: prod.splits)


lemma trace_pause:
  "trace (pause n s) = trace s @ (if wait n > 0 then [EvSleep (wait n * 1000)] else [])"
  by (simp add: pause_def sleep_def log_def)

lemma trace_before_attempt:
  "trace (before_attempt M n p s j) = trace s @ failed_attempts n p j"
  by (induction j) (simp_all add: trace_pause trace_call_exec)

lemma failed_attempts_no_fallback: "filter is_fallback (failed_attempts n p j) = []"
  by (induction j) simp_all

lemma failed_attempts_execs: "length (filter is_exec (failed_attempts n p j)) = j"
  by (induction j) simp_all

text \<open>
  Claim C2 (retry success). A \<open>Node\<close> has \<open>maxRetries = m\<close> and \<open>1 \<le> k \<le> m\<close>. If \<open>exec\<close>
  throws on attempts \<open>1\<close> to \<open>k - 1\<close> and returns \<open>v\<close> on attempt \<open>k\<close>, then \<open>Node._exec\<close>
  leaves through \<open>return await this.exec(prepRes)\<close> with \<open>v\<close>. The calls it made are the
  \<open>k\<close> calls of \<open>exec\<close>, numbered \<open>0\<close> to \<open>k - 1\<close>, and the waits between them:
  \<open>execFallback\<close> was not called.
\<close>

theorem C2_retry_success:
  assumes k: "1 \<le> k" "int k \<le> maxRetries n"
    and fails: "\<forall>j. j + 1 < k \<longrightarrow> (\<exists>e. attempt_outcome M n p s j = Inl e)"
    and succeeds: "attempt_outcome M n p s (k - 1) = Inr v"
  shows "Node_uexec_site M n p s =
           (ReturnExec, Inr v, n\<lparr>currentRetry := int k - 1\<rparr>, after_attempt M n p s (k - 1)) \<and>
         trace (after_attempt M n p s (k - 1)) =
           trace s @ failed_attempts n p (k - 1) @ [EvExec (cls n) (int k - 1) p] \<and>
         filter is_fallback (trace (after_attempt M n p s (k - 1))) = filter is_fallback (trace s) \<and>
         length (filter is_exec (trace (after_attempt M n p s (k - 1)))) =
           length (filter is_exec (trace s)) + k"
proof -
  let ?n = "n\<lparr>currentRetry := int (k - 1)\<rparr>"
  have kk: "Suc (k - Suc 0) = k" "int (k - Suc 0) = int k - 1"
    using k by (cases k; simp)+
  have lt: "int (k - 1) < maxRetries n"
    using k by linarith
  have f: "\<forall>i<k - 1. \<exists>e. attempt_outcome M n p s i = Inl e"
    using fails by (metis less_diff_conv)
  have ce: "call_exec M ?n p (before_attempt M n p s (k - 1)) =
              (Inr v, after_attempt M n p s (k - 1))"
    using succeeds by (simp add: attempt_outcome_def after_attempt_def prod_eq_iff)
  have "Node_uexec_site M n p s = retry_loop M ?n p (before_attempt M n p s (k - 1))"
    unfolding Node_uexec_site_def by (rule retry_loop_skip[OF lt f])
  also have "\<dots> = (ReturnExec, Inr v, ?n, after_attempt M n p s (k - 1))"
    using lt by (intro retry_loop_return[OF _ ce]) simp
  finally have res: "Node_uexec_site M n p s =
      (ReturnExec, Inr v, n\<lparr>currentRetry := int k - 1\<rparr>, after_attempt M n p s (k - 1))"
    by (simp add: kk)
  have tr: "trace (after_attempt M n p s (k - 1)) =
      trace s @ failed_attempts n p (k - 1) @ [EvExec (cls n) (int k - 1) p]"
    unfolding after_attempt_def by (simp add: trace_call_exec trace_before_attempt kk)
  show ?thesis
    using res tr by (simp add: kk failed_attempts_no_fallback failed_attempts_execs)
qed

theorem C2_retry_success_witness:
  "Node_uexec_site (flaky_step KNode (\<lambda>x. 2)) (demo_node 3 0) (JNum 7) (demo_state []) =
     (ReturnExec, Inr (JObj [(''done'', JNum 7)]), (demo_node 3 0)\<lparr>currentRetry := 2\<rparr>,
      \<lparr>world = [JNum 7, JNum 7],
       trace = [EvExec ''Step'' 0 (JNum 7), EvExec ''Step'' 1 (JNum 7), EvExec ''Step'' 2 (JNum 7)],
       heap = [], sched = []\<rparr>)"
proof -
  let ?M = "flaky_step KNode (\<lambda>x. 2)"
  let ?ao = "attempt_outcome ?M (demo_node 3 0) (JNum 7) (demo_state [])"
  have a0: "?ao 0 = Inl (JError ''transient'')" by code_simp
  have a1: "?ao 1 = Inl (JError ''transient'')" by code_simp
  have a2: "?ao (3 - 1) = Inr (JObj [(''done'', JNum 7)])" by code_simp
  have fails: "\<forall>j. j + 1 < 3 \<longrightarrow> (\<exists>e. ?ao j = Inl e)"
  proof (intro allI impI)
    fix j :: nat assume "j + 1 < 3"
    then have "j = 0 \<or> j = 1" by auto
    then show "\<exists>e. ?ao j = Inl e" using a0 a1 by auto
  qed
  have m: "int 3 \<le> maxRetries (demo_node 3 0)" by (simp add: demo_node_def)
  have st: "after_attempt ?M (demo_node 3 0) (JNum 7) (demo_state []) (3 - 1) =
      \<lparr>world = [JNum 7, JNum 7],
       trace = [EvExec ''Step'' 0 (JNum 7), EvExec ''Step'' 1 (JNum 7), EvExec ''Step'' 2 (JNum 7)],
       heap = [], sched = []\<rparr>" by code_simp
  from C2_retry_success[OF _ m fails a2] st show ?thesis by simp
qed




lemma retry_loop_exits:
  "currentRetry n < maxRetries n \<Longrightarrow> retry_loop M n p s = (site, r, n', s') \<Longrightarrow>
   (site = ReturnExec \<and> (\<exists>v s0. r = Inr v \<and> call_exec M n' p s0 = (Inr v, s'))) \<or>
   (site = ReturnFallback \<and> currentRetry n' = maxRetries n' - 1 \<and>
      (\<exists>e s0 s1. call_exec M n' p s0 = (Inl e, s1) \<and> call_execFallback M n' p e s1 = (r, s')))"
proof (induction M n p s rule: retry_loop.induct)
  case (1 M n p s)
  obtain x s1 where ce: "call_exec M n p s = (x, s1)"
    by (cases "call_exec M n p s")
  show ?case
  proof (cases x)
    case (Inr v)
    with 1 ce show ?thesis
      by (subst (asm) (2) retry_loop.simps) auto
  next
    case (Inl e)
    show ?thesis
    proof (cases "currentRetry n = maxRetries n - 1")
      case True
      with 1(2,3) ce Inl show ?thesis
        by (subst (asm) retry_loop.simps) (auto split: prod.splits)
    next
      case False
      with 1(2) have lt: "currentRetry (n\<lparr>currentRetry := currentRetry n + 1\<rparr>)
                          < maxRetries (n\<lparr>currentRetry := currentRetry n + 1\<rparr>)"
        by simp
      have "retry_loop M (n\<lparr>currentRetry := currentRetry n + 1\<rparr>) p
              (if 0 < wait n then sleep (wait n * 1000) s1 else s1) = (site, r, n', s')"
        using 1(2,3) ce Inl False by (subst (asm) retry_loop.simps) simp
      from 1(1)[OF 1(2) ce[symmetric] Inl False lt this] show ?thesis .
    qed
  qed
qed

text \<open>
  \<open>retry_loop\<close> is a total function: the measure \<open>maxRetries - currentRetry\<close> proves that
  the loop ends. With \<open>maxRetries \<ge> 1\<close> a call of \<open>Node._exec\<close> that no other call on the
  same object overlaps leaves either with the value a call of \<open>exec\<close> returned or with
  whatever a call of \<open>execFallback\<close> did (return or throw), and never through the
  \<open>throw\<close> after the loop. Without the precondition the \<open>throw\<close> is reached
  (\<open>retry_loop_without_attempts\<close>). The calls that \<open>ParallelBatchNode._exec\<close> overlaps
  on one object are the subject of the last section.
\<close>

lemma Node_uexec_exits:
  assumes "1 \<le> maxRetries n"
  shows "\<exists>site r n' s'.
           Node_uexec_site M n p s = (site, r, n', s') \<and> site \<noteq> ThrowAfterLoop \<and>
           ((site = ReturnExec \<and> (\<exists>v s0. r = Inr v \<and> call_exec M n' p s0 = (Inr v, s'))) \<or>
            (site = ReturnFallback \<and>
               (\<exists>e s0 s1. call_exec M n' p s0 = (Inl e, s1) \<and>
                           call_execFallback M n' p e s1 = (r, s'))))"
proof -
  obtain site r n' s' where run: "Node_uexec_site M n p s = (site, r, n', s')"
    by (cases "Node_uexec_site M n p s")
  have "currentRetry (n\<lparr>currentRetry := 0\<rparr>) < maxRetries (n\<lparr>currentRetry := 0\<rparr>)"
    using assms by simp
  from retry_loop_exits[OF this run[unfolded Node_uexec_site_def]] run
  show ?thesis by auto
qed

lemma retry_loop_without_attempts:
  "fst (Node_uexec_site M (demo_node 0 0) p s) = ThrowAfterLoop"
  unfolding Node_uexec_site_def by (subst retry_loop.simps) (simp add: demo_node_def)

text \<open>
  Claim C10 (a prepare result that is not an array). When the prepare result is \<open>null\<close>,
  \<open>undefined\<close> or anything else that is not an array, \<open>BatchNode._exec\<close> and
  \<open>ParallelBatchNode._exec\<close> return the empty array and leave the node and the state as
  they were: no call of \<open>exec\<close> or \<open>execFallback\<close>, no assignment of \<open>currentRetry\<close>,
  nothing thrown.
\<close>

theorem C10_not_an_array:
  assumes "items = JNull \<or> items = JUndefined \<or> \<not> isArray items"
  shows "BatchNode_uexec M n items s = (Inr (JArr []), n, s) \<and>
         ParallelBatchNode_uexec M n items s = (Inr (JArr []), n, s)"
  using assms by (auto simp: BatchNode_uexec_def ParallelBatchNode_uexec_def)

theorem C10_not_an_array_witness:
  "BatchNode_uexec (flaky_step KBatchNode (\<lambda>x. 1)) (demo_node 2 0) (JStr ''abc'') (demo_state []) =
     (Inr (JArr []), demo_node 2 0, demo_state []) \<and>
   ParallelBatchNode_uexec (flaky_step KParallelBatchNode (\<lambda>x. 1)) (demo_node 2 0) JNull (demo_state []) =
     (Inr (JArr []), demo_node 2 0, demo_state [])"
  using C10_not_an_array[of "JStr ''abc''" "flaky_step KBatchNode (\<lambda>x. 1)" "demo_node 2 0" "demo_state []"]
        C10_not_an_array[of JNull "flaky_step KParallelBatchNode (\<lambda>x. 1)" "demo_node 2 0" "demo_state []"]
  by simp


section \<open>Properties of the sequential batch\<close>

lemma batch_loop_cycles:
  "batch_loop M n xs acc s =
     (case cycles_in_order M n xs s of
        (Inl e, n', s') \<Rightarrow> (Inl e, n', s')
      | (Inr ys, n', s') \<Rightarrow> (Inr (JArr (acc @ ys)), n', s'))"
proof (induction xs arbitrary: n acc s)
  case Nil
  show ?case by simp
next
  case (Cons x xs)
  show ?case
    by (simp add: Cons.IH split: prod.splits sum.splits)
qed

lemma BatchNode_uexec_cycles:
  "BatchNode_uexec M n (JArr xs) s = as_batch_result (cycles_in_order M n xs s)"
  by (simp add: BatchNode_uexec_def batch_loop_cycles as_batch_result_def
      split: prod.splits sum.splits)

lemma cycles_in_order_length:
  "cycles_in_order M n xs s = (Inr ys, n', s') \<Longrightarrow> length ys = length xs"
  by (induction xs arbitrary: n s ys) (auto split: prod.splits sum.splits)

lemma cycles_in_order_append:
  "cycles_in_order M n (xs @ zs) s =
     (case cycles_in_order M n xs s of
        (Inl e, n1, s1) \<Rightarrow> (Inl e, n1, s1)
      | (Inr ys, n1, s1) \<Rightarrow>
          (case cycles_in_order M n1 zs s1 of
             (Inl e, n2, s2) \<Rightarrow> (Inl e, n2, s2)
           | (Inr ws, n2, s2) \<Rightarrow> (Inr (ys @ ws), n2, s2)))"
  by (induction xs arbitrary: n s) (auto split: prod.splits sum.splits)

text \<open>
  Claim C5 (a sequential batch keeps the input order). \<open>BatchNode._exec\<close> on an array of
  items is the specification's reading of it: one retry cycle per item, in input order,
  the outputs collected in that order, as many outputs as items. For three items
  \<open>a\<close>, \<open>b\<close>, \<open>c\<close> whose cycles return \<open>fa\<close>, \<open>fb\<close>, \<open>fc\<close> the output is
  \<open>[fa, fb, fc]\<close>, whether or not a cycle needed retries.
\<close>

theorem C5_batch_order:
  "BatchNode_uexec M n (JArr xs) s = as_batch_result (cycles_in_order M n xs s) \<and>
   (\<forall>ys n' s'. cycles_in_order M n xs s = (Inr ys, n', s') \<longrightarrow> length ys = length xs) \<and>
   (Node_uexec M n a s = (Inr fa, n1, s1) \<and> Node_uexec M n1 b s1 = (Inr fb, n2, s2) \<and>
    Node_uexec M n2 c s2 = (Inr fc, n3, s3) \<longrightarrow>
      BatchNode_uexec M n (JArr [a, b, c]) s = (Inr (JArr [fa, fb, fc]), n3, s3))"
  by (auto simp: BatchNode_uexec_cycles as_batch_result_def dest: cycles_in_order_length)

theorem C5_batch_order_witness:
  "fst (BatchNode_uexec (flaky_step KBatchNode only_b_flaky) (demo_node 2 0)
          (JArr [JStr ''a'', JStr ''b'', JStr ''c'']) (demo_state [])) =
     Inr (JArr [JObj [(''done'', JStr ''a'')], JObj [(''done'', JStr ''b'')],
                JObj [(''done'', JStr ''c'')]]) \<and>
   trace (snd (snd (BatchNode_uexec (flaky_step KBatchNode only_b_flaky) (demo_node 2 0)
          (JArr [JStr ''a'', JStr ''b'', JStr ''c'']) (demo_state [])))) =
     [EvExec ''Step'' 0 (JStr ''a''), EvExec ''Step'' 0 (JStr ''b''),
      EvExec ''Step'' 1 (JStr ''b''), EvExec ''Step'' 0 (JStr ''c'')]"
proof -
  let ?M = "flaky_step KBatchNode only_b_flaky"
  let ?a = "Node_uexec ?M (demo_node 2 0) (JStr ''a'') (demo_state [])"
  let ?b = "Node_uexec ?M (fst (snd ?a)) (JStr ''b'') (snd (snd ?a))"
  let ?c = "Node_uexec ?M (fst (snd ?b)) (JStr ''c'') (snd (snd ?b))"
  have a: "fst ?a = Inr (JObj [(''done'', JStr ''a'')])" by code_simp
  have b: "fst ?b = Inr (JObj [(''done'', JStr ''b'')])" by code_simp
  have c: "fst ?c = Inr (JObj [(''done'', JStr ''c'')])" by code_simp
  have t: "trace (snd (snd ?c)) =
     [EvExec ''Step'' 0 (JStr ''a''), EvExec ''Step'' 0 (JStr ''b''),
      EvExec ''Step'' 1 (JStr ''b''), EvExec ''Step'' 0 (JStr ''c'')]" by code_simp
  have "?a = (Inr (JObj [(''done'', JStr ''a'')]), fst (snd ?a), snd (snd ?a)) \<and>
        ?b = (Inr (JObj [(''done'', JStr ''b'')]), fst (snd ?b), snd (snd ?b)) \<and>
        ?c = (Inr (JObj [(''done'', JStr ''c'')]), fst (snd ?c), snd (snd ?c))"
    using a b c by (simp add: prod_eq_iff)
  with C5_batch_order[of ?M "demo_node 2 0" "[JStr ''a'', JStr ''b'', JStr ''c'']" "demo_state []"
      "JStr ''a''" _ "fst (snd ?a)"
      "snd (snd ?a)" "JStr ''b''" _ "fst (snd ?b)" "snd (snd ?b)" "JStr ''c''" _ "fst (snd ?c)"
      "snd (snd ?c)"]
  have "BatchNode_uexec ?M (demo_node 2 0) (JArr [JStr ''a'', JStr ''b'', JStr ''c'']) (demo_state []) =
        (Inr (JArr [JObj [(''done'', JStr ''a'')], JObj [(''done'', JStr ''b'')],
                JObj [(''done'', JStr ''c'')]]), fst (snd ?c), snd (snd ?c))"
    by blast
  then show ?thesis using t by simp
qed

text \<open>
  Claim C6 (a sequential batch isolates an exhausted item). The items before \<open>x\<close> have
  returned \<open>ys\<close> and the cycle of \<open>x\<close> is exhausted. If the fallback returns \<open>v\<close>, the
  items after \<open>x\<close> are processed as a batch of their own would be, and \<open>v\<close> stands at the
  position of \<open>x\<close> in the output. If the fallback throws \<open>e\<close>, the batch throws \<open>e\<close> in
  the state the fallback left: no later item is processed.
\<close>

theorem C6_batch_fault_isolation:
  assumes "cycles_in_order M n pre s = (Inr ys, n1, s1)"
  shows "(Node_uexec_site M n1 x s1 = (ReturnFallback, Inr v, n2, s2) \<longrightarrow>
            BatchNode_uexec M n (JArr (pre @ x # rest)) s =
              (case cycles_in_order M n2 rest s2 of
                 (Inl e, n3, s3) \<Rightarrow> (Inl e, n3, s3)
               | (Inr zs, n3, s3) \<Rightarrow> (Inr (JArr (ys @ v # zs)), n3, s3))) \<and>
         (Node_uexec_site M n1 x s1 = (ReturnFallback, Inl e, n2, s2) \<longrightarrow>
            BatchNode_uexec M n (JArr (pre @ x # rest)) s = (Inl e, n2, s2))"
  using assms
  by (auto simp: BatchNode_uexec_cycles as_batch_result_def cycles_in_order_append Node_uexec_def
      split: prod.splits sum.splits)

theorem C6_batch_fault_isolation_witness:
  "fst (BatchNode_uexec (degrading_step KBatchNode b_always_fails) (demo_node 2 0)
          (JArr [JStr ''a'', JStr ''b'', JStr ''c'']) (demo_state [])) =
     Inr (JArr [JObj [(''done'', JStr ''a'')], JStr ''degraded'', JObj [(''done'', JStr ''c'')]]) \<and>
   fst (BatchNode_uexec (flaky_step KBatchNode b_always_fails) (demo_node 2 0)
          (JArr [JStr ''a'', JStr ''b'', JStr ''c'']) (demo_state [])) = Inl (JError ''transient'') \<and>
   trace (snd (snd (BatchNode_uexec (flaky_step KBatchNode b_always_fails) (demo_node 2 0)
          (JArr [JStr ''a'', JStr ''b'', JStr ''c'']) (demo_state [])))) =
     [EvExec ''Step'' 0 (JStr ''a''), EvExec ''Step'' 0 (JStr ''b''), EvExec ''Step'' 1 (JStr ''b''),
      EvFallback ''Step'' (JStr ''b'') (JError ''transient'')]"
proof -
  let ?D = "degrading_step KBatchNode b_always_fails"
  let ?F = "flaky_step KBatchNode b_always_fails"
  let ?pd = "cycles_in_order ?D (demo_node 2 0) [JStr ''a''] (demo_state [])"
  let ?pf = "cycles_in_order ?F (demo_node 2 0) [JStr ''a''] (demo_state [])"
  let ?xd = "Node_uexec_site ?D (fst (snd ?pd)) (JStr ''b'') (snd (snd ?pd))"
  let ?xf = "Node_uexec_site ?F (fst (snd ?pf)) (JStr ''b'') (snd (snd ?pf))"
  let ?rd = "cycles_in_order ?D (fst (snd (snd ?xd))) [JStr ''c''] (snd (snd (snd ?xd)))"
  have pd: "?pd = (Inr [JObj [(''done'', JStr ''a'')]], fst (snd ?pd), snd (snd ?pd))"
  proof -
    have "fst ?pd = Inr [JObj [(''done'', JStr ''a'')]]" by code_simp
    then show ?thesis by (simp add: prod_eq_iff)
  qed
  have pf: "?pf = (Inr [JObj [(''done'', JStr ''a'')]], fst (snd ?pf), snd (snd ?pf))"
  proof -
    have "fst ?pf = Inr [JObj [(''done'', JStr ''a'')]]" by code_simp
    then show ?thesis by (simp add: prod_eq_iff)
  qed
  have xd: "?xd = (ReturnFallback, Inr (JStr ''degraded''), fst (snd (snd ?xd)), snd (snd (snd ?xd)))"
  proof -
    have "fst ?xd = ReturnFallback" "fst (snd ?xd) = Inr (JStr ''degraded'')" by code_simp+
    then show ?thesis by (simp add: prod_eq_iff)
  qed
  have xf: "?xf = (ReturnFallback, Inl (JError ''transient''), fst (snd (snd ?xf)), snd (snd (snd ?xf)))"
  proof -
    have "fst ?xf = ReturnFallback" "fst (snd ?xf) = Inl (JError ''transient'')" by code_simp+
    then show ?thesis by (simp add: prod_eq_iff)
  qed
  have rd: "fst ?rd = Inr [JObj [(''done'', JStr ''c'')]]" by code_simp
  have tf: "trace (snd (snd (snd ?xf))) =
     [EvExec ''Step'' 0 (JStr ''a''), EvExec ''Step'' 0 (JStr ''b''), EvExec ''Step'' 1 (JStr ''b''),
      EvFallback ''Step'' (JStr ''b'') (JError ''transient'')]" by code_simp
  from C6_batch_fault_isolation[OF pd, of "JStr ''b''" "JStr ''degraded''" _ _ "[JStr ''c'']"] xd
  have d: "BatchNode_uexec ?D (demo_node 2 0) (JArr ([JStr ''a''] @ JStr ''b'' # [JStr ''c''])) (demo_state []) =
      (case ?rd of (Inl e, n3, s3) \<Rightarrow> (Inl e, n3, s3)
       | (Inr zs, n3, s3) \<Rightarrow> (Inr (JArr ([JObj [(''done'', JStr ''a'')]] @ JStr ''degraded'' # zs)), n3, s3))"
    by blast
  from C6_batch_fault_isolation[OF pf, of "JStr ''b''" _ _ _ "[JStr ''c'']" "JError ''transient''"] xf
  have f: "BatchNode_uexec ?F (demo_node 2 0) (JArr ([JStr ''a''] @ JStr ''b'' # [JStr ''c''])) (demo_state []) =
      (Inl (JError ''transient''), fst (snd (snd ?xf)), snd (snd (snd ?xf)))"
    by blast
  obtain n3 s3 where rd3: "?rd = (Inr [JObj [(''done'', JStr ''c'')]], n3, s3)"
    using rd by (cases ?rd) auto
  have g1: "fst (BatchNode_uexec ?D (demo_node 2 0) (JArr [JStr ''a'', JStr ''b'', JStr ''c''])
                  (demo_state [])) =
      Inr (JArr [JObj [(''done'', JStr ''a'')], JStr ''degraded'', JObj [(''done'', JStr ''c'')]])"
    using d unfolding rd3 by (simp only: append.simps prod.case sum.case fst_conv)
  have g2: "BatchNode_uexec ?F (demo_node 2 0) (JArr [JStr ''a'', JStr ''b'', JStr ''c'']) (demo_state []) =
      (Inl (JError ''transient''), fst (snd (snd ?xf)), snd (snd (snd ?xf)))"
    using f by (simp only: append.simps)
  show ?thesis
    unfolding g2 using g1 tf by (simp only: fst_conv snd_conv simp_thms)
qed

section \<open>Properties of the flow traversal\<close>

lemma grows_refl [simp]: "grows s s"
  by (simp add: grows_def)

lemma grows_trans: "grows s s1 \<Longrightarrow> grows s1 s2 \<Longrightarrow> grows s s2"
  unfolding grows_def by auto

lemma grows_log [simp]: "grows s (log ev s)"
  by (simp add: grows_def log_def)

lemma grows_sleep [simp]: "grows s (sleep ms s)"
  by (simp add: sleep_def)

lemma grows_call_prep: "call_prep M n s = (r, s') \<Longrightarrow> grows s s'"
  by (auto simp: call_prep_def grows_def log_def split: prod.splits)

lemma grows_call_exec: "call_exec M n p s = (r, s') \<Longrightarrow> grows s s'"
  by (auto simp: call_exec_def grows_def log_def split: prod.splits)

lemma grows_call_post: "call_post M n p e s = (r, s') \<Longrightarrow> grows s s'"
  by (auto simp: call_post_def grows_def log_def split: prod.splits)

lemma grows_call_execFallback: "call_execFallback M n p e s = (r, s') \<Longrightarrow> grows s s'"
  by (auto simp: call_execFallback_def grows_def log_def split: prod.splits)

lemma keeps_refl [simp]: "keeps n s n s"
  unfolding keeps_def by (auto intro: exI[of _ "currentRetry n"])

lemma keeps_state: "grows s s' \<Longrightarrow> keeps n s n s'"
  unfolding keeps_def by (auto intro: exI[of _ "currentRetry n"])

lemma keeps_both: "grows s s' \<Longrightarrow> keeps n s (n\<lparr>currentRetry := c\<rparr>) s'"
  unfolding keeps_def by blast

lemma keeps_trans: "keeps n s n1 s1 \<Longrightarrow> keeps n1 s1 n2 s2 \<Longrightarrow> keeps n s n2 s2"
  unfolding keeps_def by (auto intro: grows_trans)

lemma keeps_grows: "keeps n s n' s' \<Longrightarrow> grows s s'"
  by (simp add: keeps_def)

lemma retry_loop_keeps:
  "retry_loop M n p s = (site, r, n', s') \<Longrightarrow> keeps n s n' s'"
proof (induction M n p s rule: retry_loop.induct)
  case (1 M n p s)
  show ?case
  proof (cases "currentRetry n < maxRetries n")
    case False
    with 1(2) show ?thesis by (subst (asm) retry_loop.simps) auto
  next
    case True
    obtain x s1 where ce: "call_exec M n p s = (x, s1)" by (cases "call_exec M n p s")
    note h1 = grows_call_exec[OF ce]
    show ?thesis
    proof (cases x)
      case (Inr v)
      with 1(2) True ce h1 show ?thesis
        by (subst (asm) retry_loop.simps) (auto intro: keeps_state)
    next
      case (Inl e)
      show ?thesis
      proof (cases "currentRetry n = maxRetries n - 1")
        case last: True
        obtain r2 s2 where fb: "call_execFallback M n p e s1 = (r2, s2)"
          by (cases "call_execFallback M n p e s1")
        from grows_trans[OF h1 grows_call_execFallback[OF fb]] have "grows s s2" .
        with 1(2) True ce Inl last fb show ?thesis
          by (subst (asm) retry_loop.simps) (auto intro: keeps_state)
      next
        case False
        let ?s = "if 0 < wait n then sleep (wait n * 1000) s1 else s1"
        have rec: "retry_loop M (n\<lparr>currentRetry := currentRetry n + 1\<rparr>) p ?s = (site, r, n', s')"
          using 1(2) True ce Inl False by (subst (asm) retry_loop.simps) simp
        from 1(1)[OF True ce[symmetric] Inl False rec]
        have "keeps (n\<lparr>currentRetry := currentRetry n + 1\<rparr>) ?s n' s'" .
        moreover have "grows s ?s"
          using h1 by (auto intro: grows_trans)
        then have "keeps n s (n\<lparr>currentRetry := currentRetry n + 1\<rparr>) ?s"
          by (rule keeps_both)
        ultimately show ?thesis by (rule keeps_trans[rotated])
      qed
    qed
  qed
qed

lemma Node_uexec_keeps: "Node_uexec M n p s = (r, n', s') \<Longrightarrow> keeps n s n' s'"
proof -
  assume a: "Node_uexec M n p s = (r, n', s')"
  obtain site where "retry_loop M (n\<lparr>currentRetry := 0\<rparr>) p s = (site, r, n', s')"
    using a by (cases "retry_loop M (n\<lparr>currentRetry := 0\<rparr>) p s")
       (auto simp: Node_uexec_def Node_uexec_site_def)
  from retry_loop_keeps[OF this] have "keeps (n\<lparr>currentRetry := 0\<rparr>) s n' s'" .
  then show ?thesis by (rule keeps_trans[OF keeps_both[OF grows_refl]])
qed

lemma batch_loop_keeps: "batch_loop M n xs acc s = (r, n', s') \<Longrightarrow> keeps n s n' s'"
proof (induction xs arbitrary: n acc s)
  case Nil
  then show ?case by simp
next
  case (Cons x xs)
  obtain r1 n1 s1 where nx: "Node_uexec M n x s = (r1, n1, s1)"
    by (cases "Node_uexec M n x s")
  note k1 = Node_uexec_keeps[OF nx]
  show ?case
  proof (cases r1)
    case (Inl e)
    with Cons.prems nx k1 show ?thesis by simp
  next
    case (Inr v)
    with Cons.prems nx have "batch_loop M n1 xs (acc @ [v]) s1 = (r, n', s')" by simp
    from keeps_trans[OF k1 Cons.IH[OF this]] show ?thesis .
  qed
qed

lemma BatchNode_uexec_keeps: "BatchNode_uexec M n p s = (r, n', s') \<Longrightarrow> keeps n s n' s'"
  by (auto simp: BatchNode_uexec_def dest: batch_loop_keeps split: if_splits)

lemma attempt_grows: "attempt M n item s = (c, s1) \<Longrightarrow> grows s s1"
  by (auto simp: attempt_def split: if_splits prod.splits dest: grows_call_exec)

lemma start_item_keeps: "start_item M n item s = (c, n1, s1) \<Longrightarrow> keeps n s n1 s1"
  by (auto simp: start_item_def split: prod.splits dest!: attempt_grows intro: keeps_both)

lemma start_all_keeps: "start_all M n xs s = (cs, n', s') \<Longrightarrow> keeps n s n' s'"
proof (induction xs arbitrary: n s cs)
  case Nil
  then show ?case by simp
next
  case (Cons x xs)
  then show ?case
    by (auto split: prod.splits intro: keeps_trans dest: start_item_keeps)
qed

lemma next_attempt_keeps: "next_attempt M n item s = (c, n1, s1) \<Longrightarrow> keeps n s n1 s1"
  by (auto simp: next_attempt_def split: prod.splits dest!: attempt_grows intro: keeps_both)

lemma resume_keeps: "resume M n item c s = (c', n1, s1) \<Longrightarrow> keeps n s n1 s1"
proof (cases "(M, n, item, c, s)" rule: resume.cases)
  case (2 M' n' item' e s0)
  assume a: "resume M n item c s = (c', n1, s1)"
  obtain r2 s2 where fb: "call_execFallback M n item e s = (r2, s2)"
    by (cases "call_execFallback M n item e s")
  note grows_call_execFallback[OF fb]
  with a 2 fb show ?thesis
    by (auto split: if_splits dest: next_attempt_keeps intro: keeps_state)
qed (auto dest: next_attempt_keeps)

lemma pick_grows: "pick ps s = (i, s0) \<Longrightarrow> grows s s0"
  by (auto simp: pick_def grows_def split: list.splits)

lemma par_step_keeps:
  assumes "par_step M n cs s = (cs', n1, s1)"
  shows "keeps n s n1 s1"
proof -
  obtain i s0 where pk: "pick (pending cs) s = (i, s0)"
    by (cases "pick (pending cs) s")
  with assms obtain c where "resume M n (fst (cs ! i)) (snd (cs ! i)) s0 = (c, n1, s1)"
    by (auto simp: par_step_def split: prod.splits)
  from keeps_trans[OF keeps_state[OF pick_grows[OF pk]] resume_keeps[OF this]]
  show ?thesis .
qed

lemma par_loop_keeps: "par_loop M n cs s = (r, n', s') \<Longrightarrow> keeps n s n' s'"
proof (induction M n cs s rule: par_loop.induct)
  case (1 M n cs s)
  show ?case
  proof (cases "rejected cs")
    case (Some e)
    with 1(2) show ?thesis by (subst (asm) par_loop.simps) auto
  next
    case None
    show ?thesis
    proof (cases "pending cs = []")
      case True
      with 1(2) None show ?thesis by (subst (asm) par_loop.simps) auto
    next
      case False
      obtain cs1 n1 s1 where st: "par_step M n cs s = (cs1, n1, s1)"
        by (cases "par_step M n cs s")
      with 1(2) None False have "par_loop M n1 cs1 s1 = (r, n', s')"
        by (subst (asm) par_loop.simps) simp
      from 1(1)[OF None False st[symmetric] refl this] par_step_keeps[OF st]
      show ?thesis by (rule keeps_trans[rotated])
    qed
  qed
qed

lemma ParallelBatchNode_uexec_keeps:
  assumes "ParallelBatchNode_uexec M n p s = (r, n', s')"
  shows "keeps n s n' s'"
proof (cases "\<not> truthy p \<or> \<not> isArray p")
  case True
  with assms show ?thesis by (auto simp: ParallelBatchNode_uexec_def)
next
  case False
  obtain cs n1 s1 where st: "start_all M n (elements p) s = (cs, n1, s1)"
    by (cases "start_all M n (elements p) s")
  with assms False have "par_loop M n1 cs s1 = (r, n', s')"
    by (auto simp: ParallelBatchNode_uexec_def)
  from keeps_trans[OF start_all_keeps[OF st] par_loop_keeps[OF this]] show ?thesis .
qed

lemma BaseNode_uexec_keeps: "BaseNode_uexec M n p s = (r, n', s') \<Longrightarrow> keeps n s n' s'"
  by (auto simp: BaseNode_uexec_def split: prod.splits intro!: keeps_state dest: grows_call_exec)

lemma uexec_keeps: "uexec M n p s = (r, n', s') \<Longrightarrow> keeps n s n' s'"
  by (auto simp: uexec_def split: kind.splits
      dest: BaseNode_uexec_keeps Node_uexec_keeps BatchNode_uexec_keeps ParallelBatchNode_uexec_keeps)

lemma frame_heap_eq: "heap s' = heap s \<Longrightarrow> frame A s s'"
  by (simp add: frame_def)

lemma frame_update: "frame {a} s (s\<lparr>heap := (heap s)[a := x]\<rparr>)"
  by (simp add: frame_def)

lemma frame_trans:
  "frame A s s1 \<Longrightarrow> frame B s1 s2 \<Longrightarrow> (\<And>b. b \<in> B \<Longrightarrow> b < length (heap s) \<Longrightarrow> b \<in> A) \<Longrightarrow>
   frame A s s2"
  unfolding frame_def by (metis le_trans less_le_trans)

lemma frame_mono: "frame A s s' \<Longrightarrow> A \<subseteq> B \<Longrightarrow> frame B s s'"
  unfolding frame_def by blast

lemma clone_at_frame:
  "clone_at b s = (c, s') \<Longrightarrow> c = length (heap s) \<and> frame {} s s'"
  by (auto simp: clone_at_def alloc_def frame_def nth_append)

lemma getNextNode_grows: "getNextNode n action s = (nxt, s') \<Longrightarrow> grows s s'"
  by (auto simp: getNextNode_def Let_def split: if_splits)

lemma getNextNode_heap: "getNextNode n action s = (nxt, s') \<Longrightarrow> heap s' = heap s"
  by (auto dest: getNextNode_grows simp: grows_def)

lemma BaseNode_urun_frame:
  assumes "BaseNode_urun P a s = (r, s')"
  shows "frame {a} s s'"
proof -
  let ?n = "heap s ! a" and ?M = "P (cls (heap s ! a))"
  obtain x s1 where pr: "call_prep ?M ?n s = (x, s1)"
    by (cases "call_prep ?M ?n s")
  then have h1: "heap s1 = heap s" by (auto dest: grows_call_prep simp: grows_def)
  show ?thesis
  proof (cases x)
    case (Inl e)
    with assms pr h1 show ?thesis
      by (auto simp: BaseNode_urun_def Let_def intro: frame_heap_eq)
  next
    case (Inr p)
    obtain y n1 s2 where ue: "uexec ?M ?n p s1 = (y, n1, s2)"
      by (cases "uexec ?M ?n p s1")
    from uexec_keeps[OF ue] have h2: "heap s2 = heap s1" by (simp add: keeps_def grows_def)
    let ?s3 = "s2\<lparr>heap := (heap s2)[a := n1]\<rparr>"
    have f3: "frame {a} s ?s3" using h1 h2 by (simp add: frame_def)
    show ?thesis
    proof (cases y)
      case (Inl e)
      with assms pr Inr ue f3 show ?thesis
        by (auto simp: BaseNode_urun_def Let_def)
    next
      case inr: (Inr e)
      with assms pr Inr ue have "call_post ?M n1 p e ?s3 = (r, s')"
        by (auto simp: BaseNode_urun_def Let_def)
      then have "heap s' = heap ?s3" by (auto dest: grows_call_post simp: grows_def)
      with f3 show ?thesis by (simp add: frame_def)
    qed
  qed
qed

lemma flow_frame_all:
  "(\<forall>P a (s::'w state) r s'. urun k P a s = Some (r, s') \<longrightarrow>
      frame {a} s s' \<and> (base (P (cls (heap s ! a))) = KFlow \<longrightarrow> frame {} s s')) \<and>
   (\<forall>P f prm (s::'w state) r s'.
      Flow_uorchestrate k P f prm s = Some (r, s') \<longrightarrow> frame {} s s') \<and>
   (\<forall>P cur p (s::'w state) r s'.
      orchestrate_loop k P cur p s = Some (r, s') \<longrightarrow> frame (set_option cur) s s')"
proof (induction k)
  case 0
  have "frame (set_option cur) s s'"
    if "orchestrate_loop 0 P cur p s = Some (r, s')" for P cur p and s s' :: "'w state" and r
    using that by (cases cur) (auto simp: Flow_uorchestrate.simps orchestrate_loop.simps intro: frame_heap_eq)
  then show ?case by simp
next
  case (Suc k)
  note IHrun = Suc.IH[THEN conjunct1, rule_format]
  note IHorch = Suc.IH[THEN conjunct2, THEN conjunct1, rule_format]
  note IHloop = Suc.IH[THEN conjunct2, THEN conjunct2, rule_format]
  have run: "frame {a} s s' \<and> (base (P (cls (heap s ! a))) = KFlow \<longrightarrow> frame {} s s')"
    if a: "urun (Suc k) P a s = Some (r, s')" for P a and s s' :: "'w state" and r
  proof (cases "base (P (cls (heap s ! a))) = KFlow")
    case False
    with a have "BaseNode_urun P a s = (r, s')" by (simp add: urun.simps Let_def)
    from BaseNode_urun_frame[OF this] False show ?thesis by simp
  next
    case True
    let ?n = "heap s ! a" and ?M = "P (cls (heap s ! a))"
    obtain x s1 where pr: "call_prep ?M ?n s = (x, s1)"
      by (cases "call_prep ?M ?n s")
    then have h1: "heap s1 = heap s" by (auto dest: grows_call_prep simp: grows_def)
    have "frame {} s s'"
    proof (cases x)
      case (Inl e)
      with a True pr h1 show ?thesis by (auto simp: urun.simps Let_def intro: frame_heap_eq)
    next
      case (Inr p)
      let ?prm = "Some (if truthy p then spread (spread [] (params (heap s1 ! a))) (own_props p)
                        else params (heap s1 ! a))"
      from a True pr Inr obtain y s2 where
        fo: "Flow_uorchestrate k P a ?prm s1 = Some (y, s2)"
        by (auto simp: urun.simps orchestrate_loop.simps Let_def split: option.splits)
      from IHorch[OF fo] h1 have f2: "frame {} s s2" by (simp add: frame_def)
      show ?thesis
      proof (cases y)
        case (Inl e)
        with a True pr Inr fo f2 show ?thesis by (auto simp: urun.simps orchestrate_loop.simps Let_def)
      next
        case inr: (Inr u)
        with a True pr Inr fo have "call_post ?M (heap s2 ! a) p JUndefined s2 = (r, s')"
          by (auto simp: urun.simps orchestrate_loop.simps Let_def)
        then have "heap s' = heap s2" by (auto dest: grows_call_post simp: grows_def)
        with f2 show ?thesis by (simp add: frame_def)
      qed
    qed
    then show ?thesis by (auto intro: frame_mono)
  qed
  have orch: "frame {} s s'"
    if a: "Flow_uorchestrate (Suc k) P f prm s = Some (r, s')" for P f prm and s s' :: "'w state" and r
  proof (cases "start (heap s ! f)")
    case None
    with a show ?thesis by (auto simp: Flow_uorchestrate.simps orchestrate_loop.simps intro: frame_heap_eq)
  next
    case (Some b)
    obtain c s1 where cl: "clone_at b s = (c, s1)" by (cases "clone_at b s")
    from clone_at_frame[OF cl] have c: "c = length (heap s)" and f1: "frame {} s s1" by auto
    from a Some cl obtain p where "orchestrate_loop k P (Some c) p s1 = Some (r, s')"
      by (auto simp: Flow_uorchestrate.simps)
    from IHloop[OF this] have "frame {c} s1 s'" by simp
    from frame_trans[OF f1 this] c show ?thesis by simp
  qed
  have loop: "frame (set_option cur) s s'"
    if a: "orchestrate_loop (Suc k) P cur p s = Some (r, s')" for P cur p and s s' :: "'w state" and r
  proof (cases cur)
    case None
    with a show ?thesis by (auto simp: Flow_uorchestrate.simps orchestrate_loop.simps intro: frame_heap_eq)
  next
    case (Some c)
    let ?s1 = "s\<lparr>heap := (heap s)[c := setParams p (heap s ! c)]\<rparr>"
    have f1: "frame {c} s ?s1" by (rule frame_update)
    from a Some obtain y s2 where ru: "urun k P c ?s1 = Some (y, s2)"
      by (auto simp: urun.simps orchestrate_loop.simps Let_def split: option.splits)
    from IHrun[OF ru] have "frame {c} ?s1 s2" by simp
    from frame_trans[OF f1 this] have f2: "frame {c} s s2" by simp
    show ?thesis
    proof (cases y)
      case (Inl e)
      with a Some ru f2 show ?thesis by (auto simp: urun.simps orchestrate_loop.simps Let_def)
    next
      case (Inr action)
      obtain nxt s3 where gn: "getNextNode (heap s2 ! c) action s2 = (nxt, s3)"
        by (cases "getNextNode (heap s2 ! c) action s2")
      from getNextNode_heap[OF gn] f2 have f3: "frame {c} s s3" by (simp add: frame_def)
      show ?thesis
      proof (cases nxt)
        case None
        with a Some ru Inr gn have "s' = s3" by (auto simp: urun.simps orchestrate_loop.simps Let_def)
        with f3 Some show ?thesis by simp
      next
        case some: (Some b)
        obtain c' s4 where cl: "clone_at b s3 = (c', s4)" by (cases "clone_at b s3")
        from clone_at_frame[OF cl] have c': "c' = length (heap s3)" and f4: "frame {} s3 s4" by auto
        from a Some ru Inr gn some cl have "orchestrate_loop k P (Some c') p s4 = Some (r, s')"
          by (auto simp: urun.simps orchestrate_loop.simps Let_def)
        from IHloop[OF this] have f5: "frame {c'} s4 s'" by simp
        have "frame {} s3 s'" using frame_trans[OF f4 f5] c' by simp
        from frame_trans[OF f3 this] Some show ?thesis by simp
      qed
    qed
  qed
  from run orch loop show ?case by blast
qed

lemma retry_loop_first_event:
  assumes "retry_loop M n p s = (site, r, n', s')" and "currentRetry n < maxRetries n"
  shows "\<exists>evs. trace s' = trace s @ EvExec (cls n) (currentRetry n) p # evs"
proof -
  obtain x s1 where ce: "call_exec M n p s = (x, s1)" by (cases "call_exec M n p s")
  then have t1: "trace s1 = trace s @ [EvExec (cls n) (currentRetry n) p]"
    by (metis trace_call_exec snd_conv)
  have "grows s1 s'"
  proof (cases x)
    case (Inr v)
    with assms ce show ?thesis by (subst (asm) retry_loop.simps) auto
  next
    case (Inl e)
    show ?thesis
    proof (cases "currentRetry n = maxRetries n - 1")
      case True
      obtain r2 s2 where fb: "call_execFallback M n p e s1 = (r2, s2)"
        by (cases "call_execFallback M n p e s1")
      with assms ce Inl True have "s' = s2" by (subst (asm) retry_loop.simps) auto
      with grows_call_execFallback[OF fb] show ?thesis by simp
    next
      case False
      let ?s = "if 0 < wait n then sleep (wait n * 1000) s1 else s1"
      have "retry_loop M (n\<lparr>currentRetry := currentRetry n + 1\<rparr>) p ?s = (site, r, n', s')"
        using assms ce Inl False by (subst (asm) retry_loop.simps) simp
      from keeps_grows[OF retry_loop_keeps[OF this]] have "grows ?s s'" .
      moreover have "grows s1 ?s" by simp
      ultimately show ?thesis by (rule grows_trans[rotated])
    qed
  qed
  with t1 show ?thesis by (auto simp: grows_def)
qed

lemma Node_uexec_site_resets:
  "Node_uexec_site M (n\<lparr>currentRetry := i\<rparr>) p s = Node_uexec_site M n p s"
  by (simp add: Node_uexec_site_def)

lemma urun_frame:
  "urun k P a s = Some (r, s') \<Longrightarrow> frame {a} s s'"
  "urun k P a s = Some (r, s') \<Longrightarrow> base (P (cls (heap s ! a))) = KFlow \<Longrightarrow> frame {} s s'"
  by (rule flow_frame_all[THEN conjunct1, rule_format, THEN conjunct1], assumption)
     (rule flow_frame_all[THEN conjunct1, rule_format, THEN conjunct2, rule_format], assumption+)

lemma Flow_uorchestrate_frame:
  "Flow_uorchestrate k P f prm s = Some (r, s') \<Longrightarrow> frame {} s s'"
  by (rule flow_frame_all[THEN conjunct2, THEN conjunct1, rule_format])

lemma orchestrate_loop_frame:
  "orchestrate_loop k P cur p s = Some (r, s') \<Longrightarrow> frame (set_option cur) s s'"
  by (rule flow_frame_all[THEN conjunct2, THEN conjunct2, rule_format])

text \<open>
  Claim C1 (per-run isolation of retry state). \<open>Flow._orchestrate\<close> runs every step on a
  fresh copy: \<open>clone\<close> allocates a new object, and neither a traversal nor a run of a
  flow (nested or not) changes any object that existed before it, so the next traversal
  starts from the same definitions. \<open>Node._exec\<close> assigns \<open>currentRetry = 0\<close> before the
  first attempt: whatever counter the object carries, the cycle behaves the same, and
  with \<open>maxRetries \<ge> 1\<close> its first call of \<open>exec\<close> sees the counter at 0.
\<close>

theorem C1_per_run_isolation:
  "(Flow_uorchestrate k P f prm s = Some (r, s') \<longrightarrow>
      length (heap s) \<le> length (heap s') \<and> (\<forall>a<length (heap s). heap s' ! a = heap s ! a)) \<and>
   (base (P (cls (heap s ! f))) = KFlow \<and> urun k P f s = Some (r, s') \<longrightarrow>
      (\<forall>a<length (heap s). heap s' ! a = heap s ! a)) \<and>
   (clone_at a s = (c, s1) \<longrightarrow> c = length (heap s) \<and> heap s1 = heap s @ [clone (heap s ! a)]) \<and>
   Node_uexec_site M (n\<lparr>currentRetry := i\<rparr>) p s0 = Node_uexec_site M n p s0 \<and>
   (1 \<le> maxRetries n \<longrightarrow>
      (\<exists>evs. trace (snd (snd (snd (Node_uexec_site M n p s0)))) =
               trace s0 @ EvExec (cls n) 0 p # evs))"
proof -
  have a: "Flow_uorchestrate k P f prm s = Some (r, s') \<longrightarrow>
      length (heap s) \<le> length (heap s') \<and> (\<forall>a<length (heap s). heap s' ! a = heap s ! a)"
    by (auto dest!: Flow_uorchestrate_frame simp: frame_def)
  have b: "base (P (cls (heap s ! f))) = KFlow \<and> urun k P f s = Some (r, s') \<longrightarrow>
      (\<forall>a<length (heap s). heap s' ! a = heap s ! a)"
    by (auto dest!: urun_frame(2) simp: frame_def)
  have c: "clone_at a s = (c, s1) \<longrightarrow> c = length (heap s) \<and> heap s1 = heap s @ [clone (heap s ! a)]"
    by (auto simp: clone_at_def alloc_def)
  have d: "1 \<le> maxRetries n \<longrightarrow>
      (\<exists>evs. trace (snd (snd (snd (Node_uexec_site M n p s0)))) =
               trace s0 @ EvExec (cls n) 0 p # evs)"
  proof
    assume m: "1 \<le> maxRetries n"
    obtain site r n' s' where run: "retry_loop M (n\<lparr>currentRetry := 0\<rparr>) p s0 = (site, r, n', s')"
      by (cases "retry_loop M (n\<lparr>currentRetry := 0\<rparr>) p s0")
    from retry_loop_first_event[OF run] m run
    show "\<exists>evs. trace (snd (snd (snd (Node_uexec_site M n p s0)))) =
               trace s0 @ EvExec (cls n) 0 p # evs"
      by (simp add: Node_uexec_site_def)
  qed
  from a b c d Node_uexec_site_resets show ?thesis by blast
qed


theorem C1_per_run_isolation_witness:
  "heap (snd (the (Flow_uorchestrate 3 demo_program 1 None demo_flow_state))) ! 0 =
     heap demo_flow_state ! 0 \<and>
   heap (snd (the (Flow_uorchestrate 3 demo_program 1 None demo_flow_state))) ! 1 =
     heap demo_flow_state ! 1 \<and>
   heap (snd (the (urun 4 demo_program 1 demo_flow_state))) ! 0 = heap demo_flow_state ! 0 \<and>
   fst (clone_at 0 demo_flow_state) = 2 \<and>
   hd (trace (snd (snd (snd (Node_uexec_site (demo_program ''Counter'')
                               ((demo_node 2 0)\<lparr>currentRetry := 7\<rparr>) JNull (demo_state [])))))) =
     EvExec ''Step'' 0 JNull \<and>
   trace (snd (the (Flow_uorchestrate 3 demo_program 1 None
                      (snd (the (Flow_uorchestrate 3 demo_program 1 None demo_flow_state)))))) =
     [EvPrep ''Counter'', EvExec ''Counter'' 0 JUndefined, EvExec ''Counter'' 1 JUndefined,
      EvPost ''Counter'' JUndefined (JNum 1),
      EvPrep ''Counter'', EvExec ''Counter'' 0 JUndefined, EvExec ''Counter'' 1 JUndefined,
      EvPost ''Counter'' JUndefined (JNum 1)]"
proof -
  let ?t = "Flow_uorchestrate 3 demo_program 1 None demo_flow_state"
  let ?u = "urun 4 demo_program 1 demo_flow_state"
  let ?n = "(demo_node 2 0)\<lparr>currentRetry := 7\<rparr>"
  have "fst (the ?t) = Inr JUndefined \<and> ?t \<noteq> None" by code_simp
  then have run: "?t = Some (Inr JUndefined, snd (the ?t))"
    by (cases ?t) (auto simp: prod_eq_iff)
  have "fst (the ?u) = Inr JUndefined \<and> ?u \<noteq> None" by code_simp
  then have urun: "?u = Some (Inr JUndefined, snd (the ?u))"
    by (cases ?u) (auto simp: prod_eq_iff)
  have flow: "base (demo_program (cls (heap demo_flow_state ! 1))) = KFlow" by code_simp
  have len: "length (heap demo_flow_state) = 2"
    by (simp add: demo_flow_state_def)
  have cl: "clone_at 0 demo_flow_state = (fst (clone_at 0 demo_flow_state), snd (clone_at 0 demo_flow_state))"
    by simp
  have m: "1 \<le> maxRetries ?n" and c: "cls ?n = ''Step''" and t0: "trace (demo_state []) = []"
    by (simp_all add: demo_node_def new_node_def demo_state_def)
  from C1_per_run_isolation[of 3 demo_program 1 None demo_flow_state "Inr JUndefined" "snd (the ?t)"] run
  have fr: "\<forall>a<length (heap demo_flow_state). heap (snd (the ?t)) ! a = heap demo_flow_state ! a"
    by blast
  have 1: "heap (snd (the ?t)) ! 0 = heap demo_flow_state ! 0"
    and 2: "heap (snd (the ?t)) ! 1 = heap demo_flow_state ! 1"
    using fr len by simp_all
  from C1_per_run_isolation[of 4 demo_program 1 None demo_flow_state "Inr JUndefined" "snd (the ?u)"]
    flow urun
  have "\<forall>a<length (heap demo_flow_state). heap (snd (the ?u)) ! a = heap demo_flow_state ! a"
    by blast
  then have 3: "heap (snd (the ?u)) ! 0 = heap demo_flow_state ! 0"
    using len by simp
  from C1_per_run_isolation[where s = demo_flow_state and a = 0
      and c = "fst (clone_at 0 demo_flow_state)" and ?s1.0 = "snd (clone_at 0 demo_flow_state)"] cl
  have "fst (clone_at 0 demo_flow_state) = length (heap demo_flow_state)"
    by blast
  then have 4: "fst (clone_at 0 demo_flow_state) = 2"
    using len by simp
  from C1_per_run_isolation[where M = "demo_program ''Counter''" and n = ?n and p = JNull
      and ?s0.0 = "demo_state []"] m
  obtain evs where
    "trace (snd (snd (snd (Node_uexec_site (demo_program ''Counter'') ?n JNull (demo_state []))))) =
       trace (demo_state []) @ EvExec (cls ?n) 0 JNull # evs"
    by blast
  then have 5: "hd (trace (snd (snd (snd (Node_uexec_site (demo_program ''Counter'') ?n JNull
                  (demo_state [])))))) = EvExec ''Step'' 0 JNull"
    by (simp only: c t0 append_Nil list.sel)
  have 6: "trace (snd (the (Flow_uorchestrate 3 demo_program 1 None (snd (the ?t))))) =
     [EvPrep ''Counter'', EvExec ''Counter'' 0 JUndefined, EvExec ''Counter'' 1 JUndefined,
      EvPost ''Counter'' JUndefined (JNum 1),
      EvPrep ''Counter'', EvExec ''Counter'' 0 JUndefined, EvExec ''Counter'' 1 JUndefined,
      EvPost ''Counter'' JUndefined (JNum 1)]"
    by code_simp
  from 1 2 3 4 5 6 show ?thesis by (simp only: simp_thms)
qed

lemma cls_setParams [simp]: "cls (setParams p n) = cls n" "successors (setParams p n) = successors n"
  by (simp_all add: setParams_def)

lemma cls_clone [simp]: "cls (clone n) = cls n" "successors (clone n) = successors n"
  by (simp_all add: clone_def new_node_def)

lemma BaseNode_urun_object:
  assumes "BaseNode_urun P c s = (r, s')" and "c < length (heap s)"
  shows "(\<exists>i. heap s' ! c = (heap s ! c)\<lparr>currentRetry := i\<rparr>) \<and> length (heap s') = length (heap s) \<and>
         (\<exists>evs. trace s' = trace s @ EvPrep (cls (heap s ! c)) # evs)"
proof -
  let ?n = "heap s ! c" and ?M = "P (cls (heap s ! c))"
  obtain x s1 where pr: "call_prep ?M ?n s = (x, s1)"
    by (cases "call_prep ?M ?n s")
  then have h1: "heap s1 = heap s" and t1: "trace s1 = trace s @ [EvPrep (cls ?n)]"
    by (auto simp: call_prep_def log_def split: prod.splits)
  have same: "\<exists>i. ?n = ?n\<lparr>currentRetry := i\<rparr>"
    by (rule exI[of _ "currentRetry ?n"]) simp
  show ?thesis
  proof (cases x)
    case (Inl e)
    with assms pr have "s' = s1" by (auto simp: BaseNode_urun_def Let_def)
    with h1 t1 same show ?thesis by simp
  next
    case (Inr p)
    obtain y n1 s2 where ue: "uexec ?M ?n p s1 = (y, n1, s2)"
      by (cases "uexec ?M ?n p s1")
    from uexec_keeps[OF ue] obtain i evs where
      h2: "heap s2 = heap s1" and n1: "n1 = ?n\<lparr>currentRetry := i\<rparr>" and t2: "trace s2 = trace s1 @ evs"
      by (auto simp: keeps_def grows_def)
    let ?s3 = "s2\<lparr>heap := (heap s2)[c := n1]\<rparr>"
    show ?thesis
    proof (cases y)
      case (Inl e)
      with assms pr Inr ue have "s' = ?s3" by (auto simp: BaseNode_urun_def Let_def)
      with h1 h2 n1 t1 t2 assms(2) show ?thesis by auto
    next
      case inr: (Inr e)
      with assms pr Inr ue have "call_post ?M n1 p e ?s3 = (r, s')"
        by (auto simp: BaseNode_urun_def Let_def)
      from grows_call_post[OF this] obtain evs' where
        "heap s' = heap ?s3" "trace s' = trace ?s3 @ evs'"
        by (auto simp: grows_def)
      with h1 h2 n1 t1 t2 assms(2) show ?thesis by auto
    qed
  qed
qed

lemma visit_facts:
  assumes "visit P x p s = (r, s')"
  shows "frame {} s s'" and "length (heap s') = Suc (length (heap s))"
    and "successors (heap s' ! length (heap s)) = successors (heap s ! x)"
    and "\<exists>evs. trace s' = trace s @ EvPrep (cls (heap s ! x)) # evs"
proof -
  let ?c = "length (heap s)"
  let ?n = "setParams p (clone (heap s ! x))"
  let ?s2 = "s\<lparr>heap := heap s @ [?n]\<rparr>"
  have run: "BaseNode_urun P ?c ?s2 = (r, s')"
    using assms by (simp add: visit_def clone_at_def alloc_def)
  have c: "?c < length (heap ?s2)" by simp
  from BaseNode_urun_frame[OF run] show "frame {} s s'"
    by (auto simp: frame_def nth_append)
  from BaseNode_urun_object[OF run c]
  show "length (heap s') = Suc (length (heap s))"
    and "successors (heap s' ! length (heap s)) = successors (heap s ! x)"
    and "\<exists>evs. trace s' = trace s @ EvPrep (cls (heap s ! x)) # evs"
    by auto
qed

text \<open>One turn of the \<open>while\<close> loop on a fresh copy of a step that is not a flow.\<close>

lemma orchestrate_loop_turn:
  assumes "base (P (cls (heap s ! x))) \<noteq> KFlow" and "visit P x p s = (Inr act, sX)"
    and "clone_at x s = (c, s1)"
  shows "orchestrate_loop (Suc (Suc k)) P (Some c) p s1 =
           (case getNextNode (heap sX ! length (heap s)) act sX of
              (None, s3) \<Rightarrow> Some (Inr JUndefined, s3)
            | (Some b, s3) \<Rightarrow>
                (case clone_at b s3 of (c', s4) \<Rightarrow> orchestrate_loop (Suc k) P (Some c') p s4))"
proof -
  have c: "c = length (heap s)" and s1: "s1 = s\<lparr>heap := heap s @ [clone (heap s ! x)]\<rparr>"
    using assms(3) by (auto simp: clone_at_def alloc_def)
  let ?s2 = "s1\<lparr>heap := (heap s1)[c := setParams p (heap s1 ! c)]\<rparr>"
  have cl: "cls (heap ?s2 ! c) = cls (heap s ! x)"
    by (simp add: c s1)
  have "urun (Suc k) P c ?s2 = Some (BaseNode_urun P c ?s2)"
    using assms(1) cl by (simp add: urun.simps Let_def)
  also have "BaseNode_urun P c ?s2 = (Inr act, sX)"
    using assms(2,3) by (simp add: visit_def)
  finally have "urun (Suc k) P c ?s2 = Some (Inr act, sX)" .
  then show ?thesis
    by (subst orchestrate_loop.simps) (simp add: Let_def c split: prod.splits option.splits)
qed

text \<open>
  Claim C4 (order and end of a traversal). The flow at \<open>f\<close> starts at \<open>a\<close>; the only
  edges are \<open>a -default-> b\<close> and \<open>b -default-> c\<close>; \<open>a\<close>, \<open>b\<close>, \<open>c\<close> are steps, and the
  cycle of each returns \<open>undefined\<close> from \<open>post\<close>. Then with fuel 5 or more
  \<open>Flow._orchestrate\<close> returns in the state reached by visiting \<open>a\<close>, then \<open>b\<close>, then
  \<open>c\<close>, each on a fresh copy and against the state the visit before left. The trace is
  the events of \<open>a\<close>, of \<open>b\<close> and of \<open>c\<close> in that order, each starting with the
  \<open>prep\<close> of the step, and nothing follows the visit of \<open>c\<close>.
\<close>

theorem C4_chain_traversal:
  assumes flow: "f < length (heap s)" "start (heap s ! f) = Some a"
    and nodes: "a < length (heap s)" "b < length (heap s)" "c < length (heap s)"
    and steps: "base (P (cls (heap s ! a))) \<noteq> KFlow" "base (P (cls (heap s ! b))) \<noteq> KFlow"
      "base (P (cls (heap s ! c))) \<noteq> KFlow"
    and edges: "successors (heap s ! a) = [(JStr ''default'', b)]"
      "successors (heap s ! b) = [(JStr ''default'', c)]" "successors (heap s ! c) = []"
    and p: "p = (case prm of Some q \<Rightarrow> q | None \<Rightarrow> params (heap s ! f))"
    and A: "visit P a p s = (Inr JUndefined, sA)"
    and B: "visit P b p sA = (Inr JUndefined, sB)"
    and C: "visit P c p sB = (Inr JUndefined, sC)"
  shows "Flow_uorchestrate (5 + k) P f prm s = Some (Inr JUndefined, sC) \<and>
         (\<exists>evA evB evC.
            trace sA = trace s @ EvPrep (cls (heap s ! a)) # evA \<and>
            trace sB = trace sA @ EvPrep (cls (heap s ! b)) # evB \<and>
            trace sC = trace sB @ EvPrep (cls (heap s ! c)) # evC)"
proof -
  note fA = visit_facts[OF A] and fB = visit_facts[OF B] and fC = visit_facts[OF C]
  have hA: "heap sA ! b = heap s ! b" "b < length (heap sA)"
    using fA(1) nodes by (auto simp: frame_def)
  have hB: "heap sB ! c = heap s ! c" "c < length (heap sB)"
    using fA(1) fB(1) nodes by (auto simp: frame_def)
  obtain cA s1 where clA: "clone_at a s = (cA, s1)" by (cases "clone_at a s")
  obtain cB s2 where clB: "clone_at b sA = (cB, s2)" by (cases "clone_at b sA")
  obtain cC s3 where clC: "clone_at c sB = (cC, s3)" by (cases "clone_at c sB")
  have p1: "(case prm of Some q \<Rightarrow> q | None \<Rightarrow> params (heap s1 ! f)) = p"
    using clA flow(1) p by (auto simp: clone_at_def alloc_def nth_append split: option.splits)
  have gA: "getNextNode (heap sA ! length (heap s)) JUndefined sA = (Some b, sA)"
    using fA(3) edges(1) by (simp add: getNextNode_def)
  have gB: "getNextNode (heap sB ! length (heap sA)) JUndefined sB = (Some c, sB)"
    using fB(3) edges(2) hA by (simp add: getNextNode_def)
  have gC: "getNextNode (heap sC ! length (heap sB)) JUndefined sC = (None, sC)"
    using fC(3) edges(3) hB by (simp add: getNextNode_def)
  have kB: "base (P (cls (heap sA ! b))) \<noteq> KFlow" and kC: "base (P (cls (heap sB ! c))) \<noteq> KFlow"
    using steps hA hB by simp_all
  have five: "5 + k = Suc (Suc (Suc (Suc (Suc k))))"
    by simp
  have "Flow_uorchestrate (5 + k) P f prm s =
        orchestrate_loop (Suc (Suc (Suc (Suc k)))) P (Some cA) p s1"
    unfolding five
    by (subst Flow_uorchestrate.simps) (simp only: flow(2) clA p1 option.case prod.case)
  also have "\<dots> = orchestrate_loop (Suc (Suc (Suc k))) P (Some cB) p s2"
    by (simp only: orchestrate_loop_turn[OF steps(1) A clA] gA clB prod.case option.case)
  also have "\<dots> = orchestrate_loop (Suc (Suc k)) P (Some cC) p s3"
    by (simp only: orchestrate_loop_turn[OF kB B clB] gB clC prod.case option.case)
  also have "\<dots> = Some (Inr JUndefined, sC)"
    by (simp only: orchestrate_loop_turn[OF kC C clC] gC prod.case option.case)
  finally have run: "Flow_uorchestrate (5 + k) P f prm s = Some (Inr JUndefined, sC)" .
  from fA(4) fB(4) fC(4) hA hB run show ?thesis by auto
qed


theorem C4_chain_traversal_witness:
  "map_option fst (Flow_uorchestrate 5 demo_program 3 None chain_state) = Some (Inr JUndefined) \<and>
   trace (snd (the (Flow_uorchestrate 5 demo_program 3 None chain_state))) =
     [EvPrep ''A'', EvExec ''A'' 0 JUndefined, EvPost ''A'' JUndefined JUndefined,
      EvPrep ''B'', EvExec ''B'' 0 JUndefined, EvPost ''B'' JUndefined JUndefined,
      EvPrep ''C'', EvExec ''C'' 0 JUndefined, EvPost ''C'' JUndefined JUndefined] \<and>
   map_option (trace \<circ> snd) (BaseNode_run 7 demo_program 3 chain_state) =
     Some [EvPrep ''Flow'',
      EvPrep ''A'', EvExec ''A'' 0 JUndefined, EvPost ''A'' JUndefined JUndefined,
      EvPrep ''B'', EvExec ''B'' 0 JUndefined, EvPost ''B'' JUndefined JUndefined,
      EvPrep ''C'', EvExec ''C'' 0 JUndefined, EvPost ''C'' JUndefined JUndefined,
      EvPost ''Flow'' JUndefined JUndefined]"
proof -
  let ?P = demo_program and ?s = chain_state
  let ?A = "visit ?P 0 [] ?s"
  let ?B = "visit ?P 1 [] (snd ?A)"
  let ?C = "visit ?P 2 [] (snd ?B)"
  have len: "3 < length (heap ?s)" "0 < length (heap ?s)" "1 < length (heap ?s)" "2 < length (heap ?s)"
    by code_simp+
  have st: "start (heap ?s ! 3) = Some 0" by code_simp
  have k: "base (?P (cls (heap ?s ! 0))) \<noteq> KFlow" "base (?P (cls (heap ?s ! 1))) \<noteq> KFlow"
    "base (?P (cls (heap ?s ! 2))) \<noteq> KFlow"
    by code_simp+
  have e: "successors (heap ?s ! 0) = [(JStr ''default'', 1)]"
    "successors (heap ?s ! 1) = [(JStr ''default'', 2)]" "successors (heap ?s ! 2) = []"
    by code_simp+
  have p: "[] = (case None of Some q \<Rightarrow> q | None \<Rightarrow> params (heap ?s ! 3))" by code_simp
  have A: "?A = (Inr JUndefined, snd ?A)"
  proof -
    have "fst ?A = Inr JUndefined" by code_simp
    then show ?thesis by (simp add: prod_eq_iff)
  qed
  have B: "?B = (Inr JUndefined, snd ?B)"
  proof -
    have "fst ?B = Inr JUndefined" by code_simp
    then show ?thesis by (simp add: prod_eq_iff)
  qed
  have C: "?C = (Inr JUndefined, snd ?C)"
  proof -
    have "fst ?C = Inr JUndefined" by code_simp
    then show ?thesis by (simp add: prod_eq_iff)
  qed
  from C4_chain_traversal[OF len(1) st len(2,3,4) k e p A B C, of 0]
  have run: "Flow_uorchestrate 5 ?P 3 None ?s = Some (Inr JUndefined, snd ?C)"
    by simp
  have tr: "trace (snd ?C) =
     [EvPrep ''A'', EvExec ''A'' 0 JUndefined, EvPost ''A'' JUndefined JUndefined,
      EvPrep ''B'', EvExec ''B'' 0 JUndefined, EvPost ''B'' JUndefined JUndefined,
      EvPrep ''C'', EvExec ''C'' 0 JUndefined, EvPost ''C'' JUndefined JUndefined]"
    by code_simp
  have pub: "map_option (trace \<circ> snd) (BaseNode_run 7 ?P 3 ?s) =
     Some [EvPrep ''Flow'',
      EvPrep ''A'', EvExec ''A'' 0 JUndefined, EvPost ''A'' JUndefined JUndefined,
      EvPrep ''B'', EvExec ''B'' 0 JUndefined, EvPost ''B'' JUndefined JUndefined,
      EvPrep ''C'', EvExec ''C'' 0 JUndefined, EvPost ''C'' JUndefined JUndefined,
      EvPost ''Flow'' JUndefined JUndefined]"
    by code_simp
  show ?thesis
    unfolding run using tr pub by simp
qed

section \<open>The parallel batch\<close>

text \<open>
  Three facts about \<open>ParallelBatchNode._exec\<close> that hold under every schedule. A batch
  of one item is the retry cycle of that item. When \<open>exec\<close> never throws on the items,
  the batch returns what the sequential batch returns, in input order. An item on which
  \<open>exec\<close> and the fallback always throw makes the batch throw, whatever the other items
  do.
\<close>

lemma log_sched: "log ev (s\<lparr>sched := q\<rparr>) = (log ev s)\<lparr>sched := q\<rparr>"
  by (simp add: log_def)

lemma sleep_sched: "sleep ms (s\<lparr>sched := q\<rparr>) = (sleep ms s)\<lparr>sched := q\<rparr>"
  by (simp add: sleep_def log_sched)

lemma call_exec_sched:
  "call_exec M n p s = (r, s1) \<Longrightarrow> call_exec M n p (s\<lparr>sched := q\<rparr>) = (r, s1\<lparr>sched := q\<rparr>)"
  by (auto simp: call_exec_def log_def split: prod.splits)

lemma call_execFallback_sched:
  "call_execFallback M n p e s = (r, s1) \<Longrightarrow>
   call_execFallback M n p e (s\<lparr>sched := q\<rparr>) = (r, s1\<lparr>sched := q\<rparr>)"
  by (auto simp: call_execFallback_def log_def split: prod.splits)

lemma pending_single: "pending [(x, c)] = (if is_pending c then [0] else [])"
  by (simp add: pending_def)

lemma pick_single: "\<exists>q. pick [0] s = (0, s\<lparr>sched := q\<rparr>)"
  by (cases "sched s") (auto simp: pick_def intro: exI[of _ "[]"])

lemma par_loop_settled: "par_loop M n [(x, Settled r)] s = (single r, n, s)"
  by (subst par_loop.simps) (cases r; simp add: pending_single single_def)

lemma par_loop_single_step:
  assumes "is_pending c"
  shows "\<exists>q. par_loop M n [(x, c)] s =
           (case resume M n x c (s\<lparr>sched := q\<rparr>) of (c', n1, s1) \<Rightarrow> par_loop M n1 [(x, c')] s1)"
proof -
  from pick_single obtain q where pk: "pick [0] s = (0, s\<lparr>sched := q\<rparr>)" by blast
  have rj: "rejected [(x, c)] = None"
    using assms by (cases c) auto
  have "par_loop M n [(x, c)] s =
          (case resume M n x c (s\<lparr>sched := q\<rparr>) of (c', n1, s1) \<Rightarrow> par_loop M n1 [(x, c')] s1)"
    using assms rj pk
    by (subst par_loop.simps) (simp add: pending_single par_step_def split: prod.splits)
  then show ?thesis ..
qed

lemma par_loop_fallback:
  "\<exists>q. par_loop M n [(x, AwaitFallback r)] s = (single r, n, s\<lparr>sched := q\<rparr>)"
proof -
  from par_loop_single_step[of "AwaitFallback r" M n x s] obtain q where
    "par_loop M n [(x, AwaitFallback r)] s = par_loop M n [(x, Settled r)] (s\<lparr>sched := q\<rparr>)"
    by auto
  then show ?thesis by (auto simp: par_loop_settled)
qed

text \<open>
  The coroutine has called \<open>exec\<close> on attempt \<open>currentRetry n\<close> and awaits its outcome
  \<open>r0\<close>: run alone, it ends as the retry loop does from that attempt on.
\<close>

lemma par_loop_single_exec:
  "currentRetry n < maxRetries n \<Longrightarrow> call_exec M n x s = (r0, s1) \<Longrightarrow>
   retry_loop M n x s = (site, r, n', s') \<Longrightarrow>
   \<exists>q'. par_loop M n [(x, AwaitExec r0)] (s1\<lparr>sched := q\<rparr>) = (single r, n', s'\<lparr>sched := q'\<rparr>)"
proof (induction M n x s arbitrary: r0 s1 q rule: retry_loop.induct)
  case (1 M n x s)
  note lt = 1(2) and ce = 1(3) and run = 1(4)
  from par_loop_single_step[of "AwaitExec r0" M n x "s1\<lparr>sched := q\<rparr>"] obtain q1 where
    step: "par_loop M n [(x, AwaitExec r0)] (s1\<lparr>sched := q\<rparr>) =
           (case resume M n x (AwaitExec r0) (s1\<lparr>sched := q1\<rparr>) of
              (c', n1, s2) \<Rightarrow> par_loop M n1 [(x, c')] s2)"
    by auto
  show ?case
  proof (cases r0)
    case (Inr v)
    with run lt ce have "(site, r, n', s') = (ReturnExec, Inr v, n, s1)"
      by (subst (asm) retry_loop.simps) simp
    with step Inr show ?thesis
      by (auto simp: par_loop_settled)
  next
    case (Inl e)
    show ?thesis
    proof (cases "currentRetry n = maxRetries n - 1")
      case True
      obtain r2 s2 where fb: "call_execFallback M n x e s1 = (r2, s2)"
        by (cases "call_execFallback M n x e s1")
      with run lt ce Inl True have res: "(site, r, n', s') = (ReturnFallback, r2, n, s2)"
        by (subst (asm) retry_loop.simps) simp
      from step Inl True call_execFallback_sched[OF fb, of q1]
      have "par_loop M n [(x, AwaitExec r0)] (s1\<lparr>sched := q\<rparr>) =
            par_loop M n [(x, AwaitFallback r2)] (s2\<lparr>sched := q1\<rparr>)"
        by simp
      with par_loop_fallback[of M n x r2 "s2\<lparr>sched := q1\<rparr>"] res show ?thesis
        by auto
    next
      case False
      let ?n1 = "n\<lparr>currentRetry := currentRetry n + 1\<rparr>"
      let ?sp = "if 0 < wait n then sleep (wait n * 1000) s1 else s1"
      have rec: "retry_loop M ?n1 x ?sp = (site, r, n', s')"
        using run lt ce Inl False by (subst (asm) retry_loop.simps) simp
      have after: "\<exists>q2. par_loop M n [(x, AwaitExec r0)] (s1\<lparr>sched := q\<rparr>) =
              (case next_attempt M n x (?sp\<lparr>sched := q2\<rparr>) of
                 (c', n1, s2) \<Rightarrow> par_loop M n1 [(x, c')] s2)"
      proof (cases "0 < wait n")
        case w: False
        with step Inl False show ?thesis by auto
      next
        case w: True
        with step Inl False
        have "par_loop M n [(x, AwaitExec r0)] (s1\<lparr>sched := q\<rparr>) =
              par_loop M n [(x, AwaitSleep)] ((sleep (wait n * 1000) s1)\<lparr>sched := q1\<rparr>)"
          by (simp add: sleep_sched)
        with par_loop_single_step[of AwaitSleep M n x "(sleep (wait n * 1000) s1)\<lparr>sched := q1\<rparr>"] w
        show ?thesis by auto
      qed
      then obtain q2 where nx: "par_loop M n [(x, AwaitExec r0)] (s1\<lparr>sched := q\<rparr>) =
              (case next_attempt M n x (?sp\<lparr>sched := q2\<rparr>) of
                 (c', n1, s2) \<Rightarrow> par_loop M n1 [(x, c')] s2)"
        by blast
      show ?thesis
      proof (cases "currentRetry ?n1 < maxRetries ?n1")
        case again: True
        obtain r1 s2 where ce1: "call_exec M ?n1 x ?sp = (r1, s2)"
          by (cases "call_exec M ?n1 x ?sp")
        from 1(1)[OF lt ce[symmetric] Inl False again ce1 rec, of q2] obtain q' where
          "par_loop M ?n1 [(x, AwaitExec r1)] (s2\<lparr>sched := q2\<rparr>) = (single r, n', s'\<lparr>sched := q'\<rparr>)"
          by blast
        moreover have "next_attempt M n x (?sp\<lparr>sched := q2\<rparr>) = (AwaitExec r1, ?n1, s2\<lparr>sched := q2\<rparr>)"
          using again call_exec_sched[OF ce1, of q2] by (simp add: next_attempt_def attempt_def)
        ultimately show ?thesis using nx by auto
      next
        case over: False
        with rec have res: "(site, r, n', s') =
            (ThrowAfterLoop, Inl (JError ''Unexpected end of retry loop''), ?n1, ?sp)"
          by (subst (asm) retry_loop.simps) simp
        have "next_attempt M n x (?sp\<lparr>sched := q2\<rparr>) =
                (Settled (Inl (JError ''Unexpected end of retry loop'')), ?n1, ?sp\<lparr>sched := q2\<rparr>)"
          using over by (simp add: next_attempt_def attempt_def)
        with nx res show ?thesis by (auto simp: par_loop_settled)
      qed
    qed
  qed
qed

lemma parallel_batch_of_one_item:
  "\<exists>q. ParallelBatchNode_uexec M n (JArr [x]) s =
          (case Node_uexec M n x s of (r, n', s') \<Rightarrow> (single r, n', s'\<lparr>sched := q\<rparr>))"
proof -
  let ?n0 = "n\<lparr>currentRetry := 0\<rparr>"
  obtain site r n' s' where run: "retry_loop M ?n0 x s = (site, r, n', s')"
    by (cases "retry_loop M ?n0 x s")
  then have seq: "Node_uexec M n x s = (r, n', s')"
    by (simp add: Node_uexec_def Node_uexec_site_def)
  show ?thesis
  proof (cases "currentRetry ?n0 < maxRetries ?n0")
    case True
    obtain r0 s1 where ce: "call_exec M ?n0 x s = (r0, s1)"
      by (cases "call_exec M ?n0 x s")
    from par_loop_single_exec[OF True ce run, of "sched s1"] obtain q' where
      "par_loop M ?n0 [(x, AwaitExec r0)] s1 = (single r, n', s'\<lparr>sched := q'\<rparr>)"
      by auto
    moreover have "start_all M n [x] s = ([(x, AwaitExec r0)], ?n0, s1)"
      using True ce by (simp add: start_item_def attempt_def)
    ultimately show ?thesis using seq
      by (auto simp: ParallelBatchNode_uexec_def)
  next
    case False
    with run have "(site, r, n', s') =
        (ThrowAfterLoop, Inl (JError ''Unexpected end of retry loop''), ?n0, s)"
      by (subst (asm) retry_loop.simps) simp
    moreover have "start_all M n [x] s =
        ([(x, Settled (Inl (JError ''Unexpected end of retry loop'')))], ?n0, s)"
      using False by (simp add: start_item_def attempt_def)
    ultimately show ?thesis using seq
      by (auto simp: ParallelBatchNode_uexec_def par_loop_settled intro: exI[of _ "sched s"])
  qed
qed

lemma rejected_None: "\<forall>ic\<in>set cs. promised ic \<noteq> None \<Longrightarrow> rejected cs = None"
proof (induction cs)
  case Nil
  show ?case by simp
next
  case (Cons ic cs)
  then show ?case by (cases ic rule: promised.cases) auto
qed

lemma settled_values:
  assumes "\<forall>ic\<in>set cs. promised ic \<noteq> None" and "pending cs = []"
  shows "map settled_value cs = map (\<lambda>ic. the (promised ic)) cs"
proof -
  have "settled_value ic = the (promised ic)" if "ic \<in> set cs" for ic
  proof -
    from that obtain i where i: "i < length cs" "cs ! i = ic"
      by (auto simp: in_set_conv_nth)
    with assms(2) have "\<not> is_pending (snd ic)"
      by (auto simp: pending_def filter_empty_conv)
    with assms(1) that show ?thesis
      by (cases ic rule: promised.cases) auto
  qed
  then show ?thesis by simp
qed

lemma par_step_promised:
  assumes inv: "\<forall>ic\<in>set cs. promised ic \<noteq> None" and pe: "pending cs \<noteq> []"
    and st: "par_step M n cs s = (cs', n1, s1)"
  shows "(\<forall>ic\<in>set cs'. promised ic \<noteq> None) \<and> map (\<lambda>ic. the (promised ic)) cs' = map (\<lambda>ic. the (promised ic)) cs \<and>
         n1 = n \<and> (\<exists>q. s1 = s\<lparr>sched := q\<rparr>)"
proof -
  obtain i s0 where pk: "pick (pending cs) s = (i, s0)"
    by (cases "pick (pending cs) s")
  from pick_mem[OF pe pk] pending_mem have i: "i < length cs" "is_pending (snd (cs ! i))"
    by auto
  from inv i(1) have "promised (cs ! i) \<noteq> None" by simp
  with i(2) obtain x v where ci: "cs ! i = (x, AwaitExec (Inr v))"
    by (cases "cs ! i" rule: promised.cases) auto
  from pk have s0: "\<exists>q. s0 = s\<lparr>sched := q\<rparr>"
    by (auto simp: pick_def split: list.splits intro: exI[of _ "sched s"])
  from st pk ci have res: "cs' = cs[i := (x, Settled (Inr v))]" "n1 = n" "s1 = s0"
    by (auto simp: par_step_def)
  have "\<forall>ic\<in>set cs'. promised ic \<noteq> None"
    unfolding res using inv by (auto dest!: set_update_subset_insert[THEN subsetD])
  moreover have "map (\<lambda>ic. the (promised ic)) cs' = map (\<lambda>ic. the (promised ic)) cs"
    unfolding res using i(1) ci by (simp add: map_update list_update_same_conv)
  ultimately show ?thesis using res s0 by simp
qed

lemma par_loop_promised:
  "\<forall>ic\<in>set cs. promised ic \<noteq> None \<Longrightarrow>
   \<exists>q. par_loop M n cs s = (Inr (JArr (map (\<lambda>ic. the (promised ic)) cs)), n, s\<lparr>sched := q\<rparr>)"
proof (induction M n cs s rule: par_loop.induct)
  case (1 M n cs s)
  note rj = rejected_None[OF 1(2)]
  show ?case
  proof (cases "pending cs = []")
    case True
    with rj settled_values[OF 1(2) True] show ?thesis
      by (subst par_loop.simps) (auto intro: exI[of _ "sched s"])
  next
    case False
    obtain cs1 n1 s1 where st: "par_step M n cs s = (cs1, n1, s1)"
      by (cases "par_step M n cs s")
    from par_step_promised[OF 1(2) False st] obtain q where
      inv: "\<forall>ic\<in>set cs1. promised ic \<noteq> None"
      and same: "map (\<lambda>ic. the (promised ic)) cs1 = map (\<lambda>ic. the (promised ic)) cs" "n1 = n" "s1 = s\<lparr>sched := q\<rparr>"
      by auto
    from 1(1)[OF rj False st[symmetric] refl inv] obtain q' where
      "par_loop M n1 cs1 s1 = (Inr (JArr (map (\<lambda>ic. the (promised ic)) cs1)), n1, s1\<lparr>sched := q'\<rparr>)"
      by auto
    with rj False st same show ?thesis
      by (subst par_loop.simps) auto
  qed
qed

lemma first_attempt_returns:
  assumes "never_throws M xs" and "x \<in> set xs" and "1 \<le> maxRetries n"
  shows "\<exists>v s1. Node_uexec M n x s = (Inr v, n\<lparr>currentRetry := 0\<rparr>, s1) \<and>
                 start_item M n x s = (AwaitExec (Inr v), n\<lparr>currentRetry := 0\<rparr>, s1)"
proof -
  from assms(1,2) obtain v w' where "exec M (n\<lparr>currentRetry := 0\<rparr>) x (world s) = (Inr v, w')"
    unfolding never_throws_def by blast
  then obtain s1 where ce: "call_exec M (n\<lparr>currentRetry := 0\<rparr>) x s = (Inr v, s1)"
    by (simp add: call_exec_def)
  have "retry_loop M (n\<lparr>currentRetry := 0\<rparr>) x s = (ReturnExec, Inr v, n\<lparr>currentRetry := 0\<rparr>, s1)"
    using assms(3) ce by (subst retry_loop.simps) simp
  moreover have "start_item M n x s = (AwaitExec (Inr v), n\<lparr>currentRetry := 0\<rparr>, s1)"
    using assms(3) ce by (simp add: start_item_def attempt_def)
  ultimately show ?thesis
    by (simp add: Node_uexec_def Node_uexec_site_def)
qed

lemma start_all_cycles:
  assumes "never_throws M xs" and "1 \<le> maxRetries n"
  shows "\<exists>cs vs n' s'. start_all M n xs s = (cs, n', s') \<and>
           cycles_in_order M n xs s = (Inr vs, n', s') \<and>
           (\<forall>ic\<in>set cs. promised ic \<noteq> None) \<and> map (\<lambda>ic. the (promised ic)) cs = vs"
  using assms
proof (induction xs arbitrary: n s)
  case Nil
  show ?case by simp
next
  case (Cons x xs)
  from Cons.prems(1) have nt: "never_throws M xs"
    by (simp add: never_throws_def)
  from first_attempt_returns[OF Cons.prems(1) _ Cons.prems(2), of x s] obtain v s1 where
    f: "Node_uexec M n x s = (Inr v, n\<lparr>currentRetry := 0\<rparr>, s1)"
       "start_item M n x s = (AwaitExec (Inr v), n\<lparr>currentRetry := 0\<rparr>, s1)"
    by auto
  have "1 \<le> maxRetries (n\<lparr>currentRetry := 0\<rparr>)" using Cons.prems(2) by simp
  from Cons.IH[OF nt this, of s1] obtain cs vs n' s' where
    r: "start_all M (n\<lparr>currentRetry := 0\<rparr>) xs s1 = (cs, n', s')"
       "cycles_in_order M (n\<lparr>currentRetry := 0\<rparr>) xs s1 = (Inr vs, n', s')"
       "\<forall>ic\<in>set cs. promised ic \<noteq> None" "map (\<lambda>ic. the (promised ic)) cs = vs"
    by blast
  show ?case using f r by simp
qed

lemma parallel_is_sequential_without_throws:
  assumes "never_throws M xs" and "1 \<le> maxRetries n"
  shows "\<exists>q. ParallelBatchNode_uexec M n (JArr xs) s =
              (case BatchNode_uexec M n (JArr xs) s of (r, n', s') \<Rightarrow> (r, n', s'\<lparr>sched := q\<rparr>))"
proof -
  from start_all_cycles[OF assms, of s] obtain cs vs n' s' where
    r: "start_all M n xs s = (cs, n', s')" "cycles_in_order M n xs s = (Inr vs, n', s')"
       "\<forall>ic\<in>set cs. promised ic \<noteq> None" "map (\<lambda>ic. the (promised ic)) cs = vs"
    by blast
  from par_loop_promised[OF r(3), of M n' s'] obtain q where
    "par_loop M n' cs s' = (Inr (JArr (map (\<lambda>ic. the (promised ic)) cs)), n', s'\<lparr>sched := q\<rparr>)"
    by auto
  with r show ?thesis
    by (auto simp: ParallelBatchNode_uexec_def BatchNode_uexec_cycles as_batch_result_def)
qed

lemma attempt_doomed:
  assumes "always_throws M x" and "attempt M n x s = (c, s1)"
  shows "doomed c"
proof (cases "currentRetry n < maxRetries n")
  case False
  with assms(2) show ?thesis by (auto simp: attempt_def)
next
  case True
  from assms(1) obtain e w' where "exec M n x (world s) = (Inl e, w')"
    unfolding always_throws_def by blast
  with assms(2) True show ?thesis
    by (auto simp: attempt_def call_exec_def)
qed

lemma next_attempt_doomed:
  "always_throws M x \<Longrightarrow> next_attempt M n x s = (c', n1, s1) \<Longrightarrow> doomed c'"
  by (auto simp: next_attempt_def split: prod.splits dest: attempt_doomed)

lemma resume_doomed:
  assumes at: "always_throws M x" and d: "doomed c" and rs: "resume M n x c s = (c', n1, s1)"
  shows "doomed c'"
proof (cases c)
  case (AwaitExec r)
  with d obtain e where r: "r = Inl e" by (cases r) auto
  from at obtain e' w' where fb: "execFallback M n x e (world s) = (Inl e', w')"
    unfolding always_throws_def by blast
  show ?thesis
  proof (cases "currentRetry n = maxRetries n - 1")
    case True
    with rs AwaitExec r fb show ?thesis by (auto simp: call_execFallback_def)
  next
    case False
    with rs AwaitExec r show ?thesis
      by (auto split: if_splits dest: next_attempt_doomed[OF at])
  qed
next
  case AwaitSleep
  with rs show ?thesis by (auto dest: next_attempt_doomed[OF at])
next
  case (AwaitFallback r)
  with d rs show ?thesis by (cases r) auto
next
  case (Settled r)
  with d rs show ?thesis by (cases r) auto
qed

lemma rejected_doomed:
  "i < length cs \<Longrightarrow> doomed (snd (cs ! i)) \<Longrightarrow> rejected cs = None \<Longrightarrow> i \<in> set (pending cs)"
proof -
  assume i: "i < length cs" and d: "doomed (snd (cs ! i))" and r: "rejected cs = None"
  have no: "(x, Settled (Inl e)) \<notin> set cs" if "rejected cs = None" for x e cs
    using that by (induction cs rule: rejected.induct) auto
  have "is_pending (snd (cs ! i))"
  proof (rule ccontr)
    assume "\<not> is_pending (snd (cs ! i))"
    with d obtain e where "snd (cs ! i) = Settled (Inl e)"
      by (cases "snd (cs ! i)" rule: doomed.cases) auto
    then have "(fst (cs ! i), Settled (Inl e)) \<in> set cs"
      using i by (metis nth_mem prod.collapse)
    with no[OF r] show False by simp
  qed
  with i show ?thesis by (simp add: pending_def)
qed

lemma par_step_doomed:
  assumes at: "always_throws M x" and i: "i < length cs" "fst (cs ! i) = x" "doomed (snd (cs ! i))"
    and st: "par_step M n cs s = (cs', n1, s1)" and pe: "pending cs \<noteq> []"
  shows "i < length cs' \<and> fst (cs' ! i) = x \<and> doomed (snd (cs' ! i))"
proof -
  obtain j s0 where pk: "pick (pending cs) s = (j, s0)"
    by (cases "pick (pending cs) s")
  from pick_mem[OF pe pk] pending_mem have j: "j < length cs" by auto
  obtain c where rs: "resume M n (fst (cs ! j)) (snd (cs ! j)) s0 = (c, n1, s1)"
    and cs': "cs' = cs[j := (fst (cs ! j), c)]"
    using st pk by (auto simp: par_step_def split: prod.splits)
  show ?thesis
  proof (cases "j = i")
    case True
    with rs i(2) have "resume M n x (snd (cs ! i)) s0 = (c, n1, s1)" by simp
    from resume_doomed[OF at i(3) this] True i cs' show ?thesis by simp
  next
    case False
    with i cs' show ?thesis by simp
  qed
qed

lemma par_loop_doomed:
  "always_throws M x \<Longrightarrow> i < length cs \<Longrightarrow> fst (cs ! i) = x \<Longrightarrow> doomed (snd (cs ! i)) \<Longrightarrow>
   \<exists>e. fst (par_loop M n cs s) = Inl e"
proof (induction M n cs s rule: par_loop.induct)
  case (1 M n cs s)
  show ?case
  proof (cases "rejected cs")
    case (Some e)
    then show ?thesis by (subst par_loop.simps) simp
  next
    case None
    from rejected_doomed[OF 1(3) 1(5) None] have pe: "pending cs \<noteq> []" by auto
    obtain cs1 n1 s1 where st: "par_step M n cs s = (cs1, n1, s1)"
      by (cases "par_step M n cs s")
    from par_step_doomed[OF 1(2,3,4,5) st pe]
    have "i < length cs1" "fst (cs1 ! i) = x" "doomed (snd (cs1 ! i))" by auto
    from 1(1)[OF None pe st[symmetric] refl 1(2) this] None pe st show ?thesis
      by (subst par_loop.simps) simp
  qed
qed

lemma start_all_doomed:
  assumes "always_throws M x" and "x \<in> set xs" and "start_all M n xs s = (cs, n', s')"
  shows "\<exists>i<length cs. fst (cs ! i) = x \<and> doomed (snd (cs ! i))"
  using assms(2,3)
proof (induction xs arbitrary: n s cs n' s')
  case Nil
  then show ?case by simp
next
  case (Cons y ys)
  obtain c n1 s1 where si: "start_item M n y s = (c, n1, s1)"
    by (cases "start_item M n y s")
  obtain cs1 n2 s2 where sa: "start_all M n1 ys s1 = (cs1, n2, s2)"
    by (cases "start_all M n1 ys s1")
  from Cons.prems(2) si sa have cs: "cs = (y, c) # cs1" by simp
  show ?case
  proof (cases "y = x")
    case True
    from si have "doomed c"
      by (auto simp: start_item_def True split: prod.splits dest: attempt_doomed[OF assms(1)])
    with cs True show ?thesis by (intro exI[of _ 0]) simp
  next
    case False
    with Cons.prems(1) have "x \<in> set ys" by simp
    from Cons.IH[OF this sa] obtain i where "i < length cs1" "fst (cs1 ! i) = x" "doomed (snd (cs1 ! i))"
      by auto
    with cs show ?thesis by (intro exI[of _ "Suc i"]) simp
  qed
qed

lemma parallel_fails_on_unrecovered_item:
  assumes "always_throws M x" and "x \<in> set xs"
  shows "\<exists>e. fst (ParallelBatchNode_uexec M n (JArr xs) s) = Inl e"
proof -
  obtain cs n' s' where sa: "start_all M n xs s = (cs, n', s')"
    by (cases "start_all M n xs s")
  from start_all_doomed[OF assms sa] obtain i where
    "i < length cs" "fst (cs ! i) = x" "doomed (snd (cs ! i))" by auto
  from par_loop_doomed[OF assms(1) this, of n' s'] sa show ?thesis
    by (simp add: ParallelBatchNode_uexec_def)
qed

text \<open>
  Claim C7 (a parallel batch keeps the input order whatever the completion order): when
  every item's retry cycle succeeds or is recovered by its fallback, the output of a
  \<open>ParallelBatchNode\<close> is \<open>[f a, f b, f c]\<close>, with \<open>f\<close> the retry cycle, in whatever order
  the asynchronous work of the items completes. The code does not do that once an item
  needs a retry. The calls of \<open>Node._exec\<close> that \<open>ParallelBatchNode._exec\<close> starts run on
  one object, so they share \<open>this.currentRetry\<close>. Take \<open>maxRetries = 2\<close>, \<open>wait = 0\<close>, a
  fallback that returns \<open>degraded\<close> and two items on which \<open>exec\<close> throws once and then
  succeeds. The retry cycle of each item, run alone or in a sequential batch, returns the
  output of its second attempt. In the parallel batch the retry of the item whose failure
  is delivered first sets the counter to 1, and the failure of the other item then counts
  as its last attempt: it gets the fallback after one attempt. Which item that is depends
  on the completion order, so the output is \<open>[done a, degraded]\<close> under one order and
  \<open>[degraded, done b]\<close> under the other, and \<open>[done a, done b]\<close> under none.
\<close>

theorem C7_parallel_batch_shares_counter:
  "fst (ParallelBatchNode_uexec (degrading_step KParallelBatchNode each_fails_once) (demo_node 2 0)
          (JArr [JStr ''a'', JStr ''b'']) (demo_state [])) =
     Inr (JArr [JObj [(''done'', JStr ''a'')], JStr ''degraded'']) \<and>
   fst (ParallelBatchNode_uexec (degrading_step KParallelBatchNode each_fails_once) (demo_node 2 0)
          (JArr [JStr ''a'', JStr ''b'']) (demo_state [1])) =
     Inr (JArr [JStr ''degraded'', JObj [(''done'', JStr ''b'')]]) \<and>
   fst (Node_uexec (degrading_step KParallelBatchNode each_fails_once) (demo_node 2 0)
          (JStr ''a'') (demo_state [])) = Inr (JObj [(''done'', JStr ''a'')]) \<and>
   fst (Node_uexec (degrading_step KParallelBatchNode each_fails_once) (demo_node 2 0)
          (JStr ''b'') (demo_state [])) = Inr (JObj [(''done'', JStr ''b'')]) \<and>
   fst (BatchNode_uexec (degrading_step KParallelBatchNode each_fails_once) (demo_node 2 0)
          (JArr [JStr ''a'', JStr ''b'']) (demo_state [])) =
     Inr (JArr [JObj [(''done'', JStr ''a'')], JObj [(''done'', JStr ''b'')]])"
  by code_simp

theorem C7_parallel_batch_shares_counter_witness:
  "fst (ParallelBatchNode_uexec (degrading_step KParallelBatchNode each_fails_once) (demo_node 2 0)
          (JArr [JStr ''a'', JStr ''b'']) (demo_state [])) \<noteq>
   fst (ParallelBatchNode_uexec (degrading_step KParallelBatchNode each_fails_once) (demo_node 2 0)
          (JArr [JStr ''a'', JStr ''b'']) (demo_state [1]))"
  using C7_parallel_batch_shares_counter by simp

text \<open>
  Claim C8 (all-or-nothing join of a parallel batch): the batch returns the ordered outputs
  if and only if every item's retry cycle eventually succeeds or is substituted by its
  fallback, and one item whose cycle throws fails the whole batch. The second half holds
  (\<open>parallel_fails_on_unrecovered_item\<close>); the first does not. Take the same two items
  and \<open>maxRetries = 2\<close>, with the inherited fallback. The retry cycle of each item
  succeeds on its second attempt, so every cycle eventually succeeds; yet the batch
  throws. With \<open>wait = 0\<close> the second item gets the fallback after one attempt and the
  fallback throws the error again. With \<open>wait = 1\<close> both items fail and wait while the
  counter is 0, the first to wake sets it to 1 and retries, the second sets it to 2,
  leaves the loop and reaches the \<open>throw\<close> after it.
\<close>

theorem C8_parallel_batch_fails_on_recoverable_items:
  "fst (ParallelBatchNode_uexec (flaky_step KParallelBatchNode each_fails_once) (demo_node 2 0)
          (JArr [JStr ''a'', JStr ''b'']) (demo_state [])) = Inl (JError ''transient'') \<and>
   fst (ParallelBatchNode_uexec (flaky_step KParallelBatchNode each_fails_once) (demo_node 2 1)
          (JArr [JStr ''a'', JStr ''b'']) (demo_state [0, 1, 0, 0])) =
     Inl (JError ''Unexpected end of retry loop'') \<and>
   fst (Node_uexec_site (flaky_step KParallelBatchNode each_fails_once) (demo_node 2 0)
          (JStr ''a'') (demo_state [])) = ReturnExec \<and>
   fst (Node_uexec_site (flaky_step KParallelBatchNode each_fails_once) (demo_node 2 0)
          (JStr ''b'') (demo_state [])) = ReturnExec \<and>
   fst (BatchNode_uexec (flaky_step KParallelBatchNode each_fails_once) (demo_node 2 0)
          (JArr [JStr ''a'', JStr ''b'']) (demo_state [])) =
     Inr (JArr [JObj [(''done'', JStr ''a'')], JObj [(''done'', JStr ''b'')]])"
  by code_simp

theorem C8_parallel_batch_fails_on_recoverable_items_witness:
  "fst (ParallelBatchNode_uexec (flaky_step KParallelBatchNode each_fails_once) (demo_node 2 0)
          (JArr [JStr ''a'', JStr ''b'']) (demo_state [])) \<noteq>
   fst (BatchNode_uexec (flaky_step KParallelBatchNode each_fails_once) (demo_node 2 0)
          (JArr [JStr ''a'', JStr ''b'']) (demo_state []))"
  using C8_parallel_batch_fails_on_recoverable_items by simp

text \<open>
  Claim C9 (the loop always leaves through \<open>exec\<close> or \<open>execFallback\<close>): for every Node
  with \<open>maxRetries \<ge> 1\<close> the retry loop of \<open>Node._exec\<close> ends by returning the result of
  \<open>exec\<close> or of \<open>execFallback\<close>, or by passing on an error of \<open>execFallback\<close>, and the
  \<open>throw\<close> after the loop is unreachable. That holds for a call of \<open>Node._exec\<close> which no
  other call on the same object overlaps (\<open>Node_uexec_exits\<close>). It does not hold for
  every Node: a \<open>ParallelBatchNode\<close> is a Node, it runs that loop once per item through
  \<open>super._exec\<close>, all on one \<open>this\<close>, and the loop counter is the field
  \<open>this.currentRetry\<close>. Take \<open>maxRetries = 2\<close>, \<open>wait = 1\<close>, a fallback that returns
  \<open>degraded\<close>, so that no fallback throws, and two items on which \<open>exec\<close> throws once and
  then succeeds. Both calls fail and start their timer while the counter is 0. The call
  that wakes first increments the counter to 1, passes the loop test and succeeds on its
  second attempt. The call that wakes second increments the counter to 2, fails the loop
  test \<open>2 < 2\<close> and runs the \<open>throw\<close> after the loop: the batch throws \<open>Unexpected end of
  retry loop\<close> after three calls of \<open>exec\<close> and no call of \<open>execFallback\<close>. The same
  happens with \<open>maxRetries = 3\<close> and three such items. Run alone, the loop on each of
  these items leaves through the return of \<open>exec\<close>.
\<close>

theorem C9_trailing_throw_reached:
  "1 \<le> maxRetries (demo_node 2 1) \<and>
   fst (ParallelBatchNode_uexec (degrading_step KParallelBatchNode each_fails_once) (demo_node 2 1)
          (JArr [JStr ''a'', JStr ''b'']) (demo_state [0, 1, 0, 0])) =
     Inl (JError ''Unexpected end of retry loop'') \<and>
   currentRetry (fst (snd (ParallelBatchNode_uexec (degrading_step KParallelBatchNode each_fails_once)
          (demo_node 2 1) (JArr [JStr ''a'', JStr ''b'']) (demo_state [0, 1, 0, 0])))) = 2 \<and>
   trace (snd (snd (ParallelBatchNode_uexec (degrading_step KParallelBatchNode each_fails_once)
          (demo_node 2 1) (JArr [JStr ''a'', JStr ''b'']) (demo_state [0, 1, 0, 0])))) =
     [EvExec ''Step'' 0 (JStr ''a''), EvExec ''Step'' 0 (JStr ''b''),
      EvSleep 1000, EvSleep 1000, EvExec ''Step'' 1 (JStr ''a'')] \<and>
   1 \<le> maxRetries (demo_node 3 1) \<and>
   fst (ParallelBatchNode_uexec (degrading_step KParallelBatchNode each_fails_once) (demo_node 3 1)
          (JArr [JStr ''a'', JStr ''b'', JStr ''c'']) (demo_state [0, 1, 2, 0, 0, 0, 0])) =
     Inl (JError ''Unexpected end of retry loop'') \<and>
   filter is_fallback
     (trace (snd (snd (ParallelBatchNode_uexec (degrading_step KParallelBatchNode each_fails_once)
          (demo_node 3 1) (JArr [JStr ''a'', JStr ''b'', JStr ''c''])
          (demo_state [0, 1, 2, 0, 0, 0, 0]))))) = [] \<and>
   fst (Node_uexec_site (degrading_step KParallelBatchNode each_fails_once) (demo_node 2 1)
          (JStr ''a'') (demo_state [])) = ReturnExec \<and>
   fst (Node_uexec_site (degrading_step KParallelBatchNode each_fails_once) (demo_node 2 1)
          (JStr ''b'') (demo_state [])) = ReturnExec"
  by code_simp

theorem C9_trailing_throw_reached_witness:
  "fst (ParallelBatchNode_uexec (degrading_step KParallelBatchNode each_fails_once) (demo_node 2 1)
          (JArr [JStr ''a'', JStr ''b'']) (demo_state [0, 1, 0, 0])) =
     Inl (JError ''Unexpected end of retry loop'') \<and>
   fst (Node_uexec_site (degrading_step KParallelBatchNode each_fails_once) (demo_node 2 1)
          (JStr ''b'') (demo_state [])) \<noteq> ThrowAfterLoop"
  using C9_trailing_throw_reached by simp

end
